theory Spec2Isabelle
  imports Main "HOL-Library.AList" "HOL-Library.Char_ord" "HOL-Library.List_Lexorder"
begin

section \<open>Strings\<close>

text \<open>
  Python strings are modelled as \<^typ>\<open>string\<close>. The model covers ASCII text: case
  conversion acts on the letters A to Z and a to z and leaves every other character alone.
\<close>

definition ascii_uppercase :: string where
  "ascii_uppercase = ''ABCDEFGHIJKLMNOPQRSTUVWXYZ''"

definition ascii_lowercase :: string where
  "ascii_lowercase = ''abcdefghijklmnopqrstuvwxyz''"

definition digits :: string where
  "digits = ''0123456789''"

definition lower_char :: "char \<Rightarrow> char" where
  "lower_char c = (case map_of (zip ascii_uppercase ascii_lowercase) c of
                     Some d \<Rightarrow> d | None \<Rightarrow> c)"

definition upper_char :: "char \<Rightarrow> char" where
  "upper_char c = (case map_of (zip ascii_lowercase ascii_uppercase) c of
                     Some d \<Rightarrow> d | None \<Rightarrow> c)"

definition is_cased :: "char \<Rightarrow> bool" where
  "is_cased c = (c \<in> set ascii_uppercase \<or> c \<in> set ascii_lowercase)"

text \<open>\<^verbatim>\<open>str.lower()\<close>\<close>

definition lower :: "string \<Rightarrow> string" where
  "lower s = map lower_char s"

text \<open>\<^verbatim>\<open>str.title()\<close>: the first letter of every run of letters in upper case, the rest in
  lower case.\<close>

fun title_from :: "bool \<Rightarrow> string \<Rightarrow> string" where
  "title_from prev [] = []"
| "title_from prev (c # cs) =
     (if is_cased c
      then (if prev then lower_char c else upper_char c) # title_from True cs
      else c # title_from False cs)"

definition title :: "string \<Rightarrow> string" where
  "title s = title_from False s"

text \<open>\<^verbatim>\<open>s.startswith(p)\<close>, \<^verbatim>\<open>s.endswith(p)\<close> and \<^verbatim>\<open>p in s\<close>.\<close>

definition startswith :: "string \<Rightarrow> string \<Rightarrow> bool" where
  "startswith s p = (take (length p) s = p)"

definition endswith :: "string \<Rightarrow> string \<Rightarrow> bool" where
  "endswith s p = (length p \<le> length s \<and> drop (length s - length p) s = p)"

fun contains :: "string \<Rightarrow> string \<Rightarrow> bool" where
  "contains [] p = (p = [])"
| "contains (c # cs) p = (startswith (c # cs) p \<or> contains cs p)"

text \<open>\<^verbatim>\<open>s.rfind(c)\<close> for a single character: the highest index of \<open>c\<close>, or \<open>-1\<close>.\<close>

definition rfind :: "string \<Rightarrow> char \<Rightarrow> int" where
  "rfind s c = (if c \<in> set s
                then int (length s) - 1 - int (length (takeWhile (\<lambda>x. x \<noteq> c) (rev s)))
                else - 1)"

text \<open>\<^verbatim>\<open>s.split(c)\<close> for a single character separator.\<close>

fun split_on :: "char \<Rightarrow> string \<Rightarrow> string list" where
  "split_on c [] = [Nil]"
| "split_on c (x # xs) =
     (if x = c then [] # split_on c xs
      else (case split_on c xs of
              w # ws \<Rightarrow> (x # w) # ws
            | [] \<Rightarrow> [x # Nil]))"

text \<open>\<^verbatim>\<open>str(n)\<close> for a non-negative integer.\<close>

definition digit_char :: "nat \<Rightarrow> char" where
  "digit_char d = digits ! (d mod 10)"

function str_of_nat :: "nat \<Rightarrow> string" where
  "str_of_nat n = (if n < 10 then [digit_char n]
                   else str_of_nat (n div 10) @ [digit_char (n mod 10)])"
  by pat_completeness auto
termination
  by (relation "measure (\<lambda>n. n)") auto

declare str_of_nat.simps [simp del]

section \<open>Paths\<close>

text \<open>
  \<^verbatim>\<open>os.path\<close> and \<^verbatim>\<open>pathlib\<close> in their POSIX flavour. A \<^verbatim>\<open>Path\<close> object is its root
  (\<open>''''\<close>, \<open>''/''\<close> or \<open>''//''\<close>) and the list of its components; parsing drops empty
  components and \<open>''.''\<close>, and leaves \<open>''..''\<close> alone, as pathlib does.
\<close>

text \<open>\<^verbatim>\<open>os.path.basename(p)\<close>: \<^verbatim>\<open>i = p.rfind('/') + 1; return p[i:]\<close>\<close>

definition basename :: "string \<Rightarrow> string" where
  "basename p = drop (nat (rfind p CHR ''/'' + 1)) p"

text \<open>\<^verbatim>\<open>os.path.splitext(p)\<close>: the extension starts at the last dot of the last component,
  unless only dots precede it there.\<close>

definition splitext :: "string \<Rightarrow> string \<times> string" where
  "splitext p =
     (let sepIndex = rfind p CHR ''/'';
          dotIndex = rfind p CHR ''.''
      in if dotIndex > sepIndex \<and>
            list_ex (\<lambda>c. c \<noteq> CHR ''.'')
              (take (nat (dotIndex - (sepIndex + 1))) (drop (nat (sepIndex + 1)) p))
         then (take (nat dotIndex) p, drop (nat dotIndex) p)
         else (p, []))"

datatype path = Path (root: string) (parts: "string list")

definition splitroot :: "string \<Rightarrow> string \<times> string" where
  "splitroot p =
     (if take 1 p \<noteq> ''/'' then ([], p)
      else if take 1 (drop 1 p) \<noteq> ''/'' \<or> take 1 (drop 2 p) = ''/'' then (''/'', drop 1 p)
      else (''//'', drop 2 p))"

definition rel_parts :: "string \<Rightarrow> string list" where
  "rel_parts rel = filter (\<lambda>x. x \<noteq> [] \<and> x \<noteq> ''.'') (split_on CHR ''/'' rel)"

text \<open>\<^verbatim>\<open>Path(s)\<close>\<close>

definition parse_path :: "string \<Rightarrow> path" where
  "parse_path s =
     (if s = [] then Path [] []
      else (case splitroot s of (r, rel) \<Rightarrow> Path r (rel_parts rel)))"

text \<open>\<^verbatim>\<open>p / s\<close>: an absolute right operand replaces the left one, a relative one appends
  its components.\<close>

definition path_div :: "path \<Rightarrow> string \<Rightarrow> path" where
  "path_div p s =
     (if take 1 s = ''/'' then parse_path s
      else Path (root p) (parts p @ rel_parts s))"

text \<open>\<^verbatim>\<open>p.name\<close>, \<^verbatim>\<open>p.suffix\<close>, \<^verbatim>\<open>p.stem\<close>, \<^verbatim>\<open>p.parent\<close>, \<^verbatim>\<open>str(p)\<close>\<close>

definition name :: "path \<Rightarrow> string" where
  "name p = (if parts p = [] then [] else last (parts p))"

definition suffix_of_name :: "string \<Rightarrow> string" where
  "suffix_of_name n =
     (let i = rfind n CHR ''.''
      in if 0 < i \<and> i < int (length n) - 1 then drop (nat i) n else [])"

definition stem_of_name :: "string \<Rightarrow> string" where
  "stem_of_name n =
     (let i = rfind n CHR ''.''
      in if 0 < i \<and> i < int (length n) - 1 then take (nat i) n else n)"

definition suffix :: "path \<Rightarrow> string" where
  "suffix p = suffix_of_name (name p)"

definition stem :: "path \<Rightarrow> string" where
  "stem p = stem_of_name (name p)"

definition parent :: "path \<Rightarrow> path" where
  "parent p = (if parts p = [] then p else Path (root p) (butlast (parts p)))"

fun join_with :: "string \<Rightarrow> string list \<Rightarrow> string" where
  "join_with sep [] = []"
| "join_with sep [x] = x"
| "join_with sep (x # y # ys) = x @ sep @ join_with sep (y # ys)"

definition path_str :: "path \<Rightarrow> string" where
  "path_str p = (if root p = [] \<and> parts p = [] then ''.''
                 else root p @ join_with ''/'' (parts p))"

section \<open>Classifier\<close>

definition file_type_mapping :: "(string \<times> string) list" where
  "file_type_mapping =
     [(''.pdf'', ''PDFs''),
      (''.doc'', ''Documents''), (''.docx'', ''Documents''), (''.txt'', ''Documents''),
      (''.rtf'', ''Documents''), (''.odt'', ''Documents''), (''.xls'', ''Documents''),
      (''.xlsx'', ''Documents''), (''.csv'', ''Documents''), (''.ppt'', ''Documents''),
      (''.pptx'', ''Documents''),
      (''.jpg'', ''Images''), (''.jpeg'', ''Images''), (''.png'', ''Images''),
      (''.gif'', ''Images''), (''.bmp'', ''Images''), (''.svg'', ''Images''),
      (''.webp'', ''Images''), (''.tiff'', ''Images''),
      (''.mp4'', ''Other''), (''.avi'', ''Other''), (''.mkv'', ''Other''),
      (''.mov'', ''Other''), (''.wmv'', ''Other''), (''.webm'', ''Other''),
      (''.mp3'', ''Other''), (''.wav'', ''Other''), (''.flac'', ''Other''),
      (''.aac'', ''Other''), (''.ogg'', ''Other''), (''.m4a'', ''Other''),
      (''.zip'', ''Other''), (''.rar'', ''Other''), (''.7z'', ''Other''),
      (''.tar'', ''Other''), (''.gz'', ''Other''),
      (''.py'', ''Other''), (''.js'', ''Other''), (''.html'', ''Other''),
      (''.css'', ''Other''), (''.json'', ''Other''), (''.xml'', ''Other''),
      (''.exe'', ''Other''), (''.msi'', ''Other'')]"

definition tag_rules :: "(string \<times> string list) list" where
  "tag_rules =
     [(''finance'', [''invoice'', ''receipt'', ''bill'', ''payment'', ''tax'', ''bank'',
                     ''statement'']),
      (''work'', [''project'', ''meeting'', ''presentation'', ''report'', ''proposal'',
                  ''contract'']),
      (''personal'', [''family'', ''vacation'', ''holiday'', ''birthday'', ''photo'',
                      ''travel'']),
      (''education'', [''homework'', ''assignment'', ''exam'', ''notes'', ''lecture'',
                       ''study''])]"

text \<open>\<^verbatim>\<open>re.search(r"(19|20)\d{2}", s)\<close>: somewhere in \<open>s\<close>, 19 or 20 followed by two
  digits.\<close>

fun search_year :: "string \<Rightarrow> bool" where
  "search_year [] = False"
| "search_year (c # cs) =
     (((startswith (c # cs) ''19'' \<or> startswith (c # cs) ''20'') \<and>
       list_ex (\<lambda>d. take 1 (drop 2 (c # cs)) = [d]) digits \<and>
       list_ex (\<lambda>d. take 1 (drop 3 (c # cs)) = [d]) digits)
      \<or> search_year cs)"

definition month_names :: "string list" where
  "month_names = [''jan'', ''feb'', ''mar'', ''apr'', ''may'', ''jun'',
                  ''jul'', ''aug'', ''sep'', ''oct'', ''nov'', ''dec'']"

text \<open>\<^verbatim>\<open>re.search(r"jan|feb|...|dec", s)\<close>\<close>

definition search_month :: "string \<Rightarrow> bool" where
  "search_month s = list_ex (contains s) month_names"

text \<open>The set of tags is a list without duplicates; \<^verbatim>\<open>tags.add(t)\<close> is
  \<^const>\<open>List.insert\<close>, and \<^verbatim>\<open>sorted(list(tags))\<close> is \<^const>\<open>sort\<close> in the
  lexicographic order of the characters.\<close>

definition get_file_tags :: "string \<Rightarrow> string list" where
  "get_file_tags file_path =
     (let filename = lower (basename file_path);
          name_without_ext = fst (splitext filename);
          tags = fold (\<lambda>(category, keywords) tags.
                         if list_ex (contains name_without_ext) keywords
                         then List.insert category tags else tags)
                      tag_rules [];
          file_extension = lower (suffix (parse_path file_path));
          tags = (if file_extension \<noteq> []
                  then List.insert (''type_'' @ drop 1 file_extension) tags else tags);
          tags = (if search_year name_without_ext \<or> search_month name_without_ext
                  then List.insert ''dated'' tags else tags)
      in sort tags)"

definition get_file_type :: "string \<Rightarrow> string" where
  "get_file_type file_path =
     (let extension = lower (suffix (parse_path file_path))
      in case map_of file_type_mapping extension of
           Some t \<Rightarrow> t
         | None \<Rightarrow> ''Other'')"

definition priority_tags :: "string list" where
  "priority_tags = [''finance'', ''work'', ''personal'', ''education'']"

text \<open>\<^verbatim>\<open>get_destination_folder\<close>: the first priority tag present in \<open>tags\<close> decides,
  otherwise the category does. \<open>tags\<close> is \<open>None\<close> for Python's default argument.\<close>

definition get_destination_folder :: "path \<Rightarrow> string \<Rightarrow> string list option \<Rightarrow> path" where
  "get_destination_folder base_folder file_path tags =
     (let file_type = get_file_type file_path
      in case (case tags of None \<Rightarrow> None
               | Some ts \<Rightarrow> if ts = [] then None
                            else find (\<lambda>priority_tag. priority_tag \<in> set ts) priority_tags) of
           Some priority_tag \<Rightarrow> path_div base_folder (title priority_tag @ ''_Files'')
         | None \<Rightarrow> path_div base_folder file_type)"

section \<open>Ignore patterns\<close>

text \<open>\<^verbatim>\<open>should_ignore_file\<close>: the file name is put in lower case, the patterns are used
  as configured.\<close>

definition pattern_matches :: "string \<Rightarrow> string \<Rightarrow> bool" where
  "pattern_matches filename pattern =
     (if startswith pattern ''*'' \<and> endswith filename (drop 1 pattern) then True
      else if endswith pattern ''*'' \<and> startswith filename (butlast pattern) then True
      else contains filename pattern)"

definition should_ignore_file :: "string list \<Rightarrow> string \<Rightarrow> bool" where
  "should_ignore_file ignore_patterns file_path =
     (let filename = lower (basename file_path)
      in list_ex (pattern_matches filename) ignore_patterns)"

definition default_ignore_patterns :: "string list" where
  "default_ignore_patterns =
     [''*.tmp'', ''*.temp'', ''*.part'', ''*.crdownload'', ''.DS_Store'', ''Thumbs.db'',
      ''*.lock'']"


section \<open>Conflict resolution\<close>

text \<open>\<^verbatim>\<open>datetime.now().strftime("%Y%m%d_%H%M%S")\<close>: the wall clock is an input.\<close>

record datetime =
  year :: nat
  month :: nat
  day :: nat
  hour :: nat
  minute :: nat
  second :: nat

definition zfill :: "nat \<Rightarrow> string \<Rightarrow> string" where
  "zfill w s = replicate (w - length s) CHR ''0'' @ s"

definition strftime_stamp :: "datetime \<Rightarrow> string" where
  "strftime_stamp d =
     zfill 4 (str_of_nat (year d)) @ zfill 2 (str_of_nat (month d)) @
     zfill 2 (str_of_nat (day d)) @ ''_'' @
     zfill 2 (str_of_nat (hour d)) @ zfill 2 (str_of_nat (minute d)) @
     zfill 2 (str_of_nat (second d))"

text \<open>
  \<^verbatim>\<open>handle_filename_conflict\<close>. The file system is read through \<open>ex\<close>
  (\<^verbatim>\<open>Path.exists\<close>), which does not change during the call. The loop
  \<^verbatim>\<open>while counter <= 1000\<close> returns \<open>None\<close> when it runs out without a free name.
\<close>

function conflict_loop ::
  "(path \<Rightarrow> bool) \<Rightarrow> string \<Rightarrow> string \<Rightarrow> path \<Rightarrow> nat \<Rightarrow> path option" where
  "conflict_loop ex base sfx par counter =
     (if counter \<le> 1000
      then (let new_name = base @ ''_'' @ str_of_nat counter @ sfx;
                new_path = path_div par new_name
            in if \<not> ex new_path then Some new_path
               else conflict_loop ex base sfx par (counter + 1))
      else None)"
  by pat_completeness auto
termination
  by (relation "measure (\<lambda>(ex, base, sfx, par, counter). 1001 - counter)") auto

declare conflict_loop.simps [simp del]

definition handle_filename_conflict :: "(path \<Rightarrow> bool) \<Rightarrow> datetime \<Rightarrow> path \<Rightarrow> path" where
  "handle_filename_conflict ex now dest_path =
     (if \<not> ex dest_path then dest_path
      else (let base = stem dest_path;
                sfx = suffix dest_path;
                par = parent dest_path
            in case conflict_loop ex base sfx par 1 of
                 Some new_path \<Rightarrow> new_path
               | None \<Rightarrow> path_div par (base @ ''_'' @ strftime_stamp now @ sfx)))"

text \<open>The numbered candidate \<open><stem>_<n><suffix>\<close> beside \<open>dest_path\<close>, and the
  timestamp candidate.\<close>

definition numbered :: "path \<Rightarrow> nat \<Rightarrow> path" where
  "numbered dest_path n =
     path_div (parent dest_path) (stem dest_path @ ''_'' @ str_of_nat n @ suffix dest_path)"

definition stamped :: "path \<Rightarrow> datetime \<Rightarrow> path" where
  "stamped dest_path now =
     path_div (parent dest_path)
       (stem dest_path @ ''_'' @ strftime_stamp now @ suffix dest_path)"

text \<open>What \<^verbatim>\<open>Path(s)\<close> and \<^verbatim>\<open>/\<close> produce: components are non-empty, are not
  \<open>''.''\<close> and hold no separator.\<close>

definition wf_path :: "path \<Rightarrow> bool" where
  "wf_path p = list_all (\<lambda>x. x \<noteq> [] \<and> x \<noteq> ''.'' \<and> CHR ''/'' \<notin> set x) (parts p)"


section \<open>The core object and its environment\<close>

text \<open>
  The file system maps a parsed path to a regular file or a directory, each with its
  \<^verbatim>\<open>st_size\<close>. Paths are compared as pathlib normalises them; \<open>''..''\<close> and symbolic
  links are not resolved, and a path without components (the root, the current
  directory) is always a directory. Permission and device errors are not modelled.
\<close>

datatype node = File nat | Dir nat

type_synonym filesystem = "path \<Rightarrow> node option"

definition stat :: "filesystem \<Rightarrow> path \<Rightarrow> node option" where
  "stat files p = (if parts p = [] then Some (Dir 0) else files p)"

fun st_size :: "node \<Rightarrow> nat" where
  "st_size (File n) = n"
| "st_size (Dir n) = n"

text \<open>\<^verbatim>\<open>Path.exists\<close>, \<^verbatim>\<open>Path.is_file\<close>, \<^verbatim>\<open>Path.is_dir\<close>\<close>

definition path_exists :: "filesystem \<Rightarrow> path \<Rightarrow> bool" where
  "path_exists files p = (stat files p \<noteq> None)"

definition is_file :: "filesystem \<Rightarrow> path \<Rightarrow> bool" where
  "is_file files p = (case stat files p of Some (File n) \<Rightarrow> True | _ \<Rightarrow> False)"

definition is_dir :: "filesystem \<Rightarrow> path \<Rightarrow> bool" where
  "is_dir files p = (case stat files p of Some (Dir n) \<Rightarrow> True | _ \<Rightarrow> False)"

text \<open>\<^verbatim>\<open>os.path.exists(s)\<close> and \<^verbatim>\<open>os.path.getsize(s)\<close> on a string; the empty string
  names nothing, and \<^verbatim>\<open>getsize\<close> raises (\<open>None\<close>) where nothing exists.\<close>

definition os_path_exists :: "filesystem \<Rightarrow> string \<Rightarrow> bool" where
  "os_path_exists files s = (s \<noteq> [] \<and> path_exists files (parse_path s))"

definition os_path_getsize :: "filesystem \<Rightarrow> string \<Rightarrow> nat option" where
  "os_path_getsize files s =
     (if s = [] then None else map_option st_size (stat files (parse_path s)))"

datatype exn = FileExistsError | FileNotFoundError | NotADirectoryError | ShutilError

text \<open>\<^verbatim>\<open>p.mkdir(parents=True, exist_ok=True)\<close>\<close>

function mkdir_parents :: "filesystem \<Rightarrow> path \<Rightarrow> exn + filesystem" where
  "mkdir_parents files p =
     (case stat files p of
        Some (Dir n) \<Rightarrow> Inr files
      | Some (File n) \<Rightarrow> Inl FileExistsError
      | None \<Rightarrow>
          (if parts p = [] then Inl FileNotFoundError
           else (case stat files (parent p) of
                   Some (Dir n) \<Rightarrow> Inr (files(p \<mapsto> Dir 0))
                 | Some (File n) \<Rightarrow> Inl NotADirectoryError
                 | None \<Rightarrow>
                     (case mkdir_parents files (parent p) of
                        Inl e \<Rightarrow> Inl e
                      | Inr files' \<Rightarrow> Inr (files'(p \<mapsto> Dir 0))))))"
  by pat_completeness auto
termination
  by (relation "measure (\<lambda>(files, p). length (parts p))") (auto simp: parent_def)

declare mkdir_parents.simps [simp del]

text \<open>\<^verbatim>\<open>shutil.move(src, dst)\<close> for a regular file \<open>src\<close>: into \<open>dst\<close> when that is a
  directory (an entry of the same name there is an error), onto \<open>dst\<close> otherwise
  (\<^verbatim>\<open>os.rename\<close> replaces a regular file); the target's folder must exist.\<close>

definition shutil_move :: "filesystem \<Rightarrow> path \<Rightarrow> path \<Rightarrow> exn + filesystem" where
  "shutil_move files src dst =
     (let real_dst = (if is_dir files dst then path_div dst (name src) else dst)
      in if is_dir files dst \<and> path_exists files real_dst then Inl ShutilError
         else if \<not> is_dir files (parent real_dst) then Inl FileNotFoundError
         else Inr ((files(src := None))(real_dst := files src)))"

text \<open>A \<^verbatim>\<open>threading.Timer\<close>: the arguments of the call it will make, the time at which
  its wait ends, and its \<^verbatim>\<open>finished\<close> event, set by \<^verbatim>\<open>cancel()\<close> and at the end of
  \<^verbatim>\<open>run()\<close>.\<close>

record timer =
  t_path :: string
  t_kind :: string
  t_deadline :: nat
  t_finished :: bool

text \<open>The arguments of one call of the audit collaborator's
  \<^verbatim>\<open>log_file_movement(original_name, new_path, file_type, file_size, tags)\<close>.\<close>

record audit_record =
  original_name :: string
  new_path :: string
  file_type :: string
  file_size :: nat
  tags :: "string list"

text \<open>The three ways \<^verbatim>\<open>DatabaseManager().connect()\<close> ends: it returns True, it returns
  False (an \<^verbatim>\<open>sqlite3.Error\<close>, caught there), or it raises.\<close>

datatype db_outcome = Connects | Refuses | Raises

text \<open>
  The object and the world around it. Configuration: \<open>base_folder\<close> to
  \<open>ignore_patterns\<close>. Attributes: \<open>watched_paths\<close>, \<open>is_running\<close>, \<open>pending_files\<close>
  (a dict from path to a timer, here the index of the timer in \<open>timers\<close>). World:
  the timer objects created so far, the time in ticks, the file system, the wall clock,
  how the database answers, and whether the observer's \<^verbatim>\<open>schedule\<close>, \<^verbatim>\<open>start\<close> and
  \<^verbatim>\<open>stop\<close>/\<^verbatim>\<open>join\<close> raise. Two traces are kept: the calls of the audit collaborator
  and the calls of \<^verbatim>\<open>process_file\<close>.
\<close>

record core =
  base_folder :: path
  watched_folders :: "string list"
  delay_seconds :: nat
  max_file_size_mb :: nat
  ignore_patterns :: "string list"
  watched_paths :: "(string \<times> bool) list"
  is_running :: bool
  pending_files :: "(string \<times> nat) list"
  timers :: "timer list"
  clock :: nat
  files :: filesystem
  wall_clock :: datetime
  db_connect :: db_outcome
  schedule_raises :: "string \<Rightarrow> bool"
  start_raises :: bool
  stop_raises :: bool
  audit_calls :: "audit_record list"
  process_calls :: "(string \<times> string) list"

section \<open>Relocation\<close>

datatype message = Invalid_source string | Moved_to string | Error_moving exn

text \<open>\<^verbatim>\<open>move_file\<close> returns \<open>(success, dest_path, message)\<close> and the new state.\<close>

definition move_file ::
  "core \<Rightarrow> string \<Rightarrow> string list option \<Rightarrow> (bool \<times> string \<times> message) \<times> core" where
  "move_file st source_path tgs =
     (let source = parse_path source_path
      in if \<not> path_exists (files st) source \<or> \<not> is_file (files st) source
         then ((False, [], Invalid_source source_path), st)
         else
           (let dest_folder = get_destination_folder (base_folder st) source_path tgs;
                dest_path = path_div dest_folder (name source);
                dest_path = handle_filename_conflict (path_exists (files st)) (wall_clock st)
                              dest_path
            in case mkdir_parents (files st) (parent dest_path) of
                 Inl e \<Rightarrow> ((False, [], Error_moving e), st)
               | Inr files1 \<Rightarrow>
                   (case shutil_move files1 source dest_path of
                      Inl e \<Rightarrow> ((False, [], Error_moving e), st\<lparr>files := files1\<rparr>)
                    | Inr files2 \<Rightarrow>
                        ((True, path_str dest_path, Moved_to (name dest_path)),
                         st\<lparr>files := files2\<rparr>))))"

text \<open>\<^verbatim>\<open>should_process_file\<close>: any exception (here: \<^verbatim>\<open>getsize\<close> of a missing file) gives
  False.\<close>

definition should_process_file :: "core \<Rightarrow> string \<Rightarrow> bool" where
  "should_process_file st file_path =
     (if should_ignore_file (ignore_patterns st) file_path then False
      else (let max_size = max_file_size_mb st * 1024 * 1024
            in case os_path_getsize (files st) file_path of
                 None \<Rightarrow> False
               | Some sz \<Rightarrow> if sz > max_size then False else True))"

text \<open>\<^verbatim>\<open>log_file_movement\<close> of the core: the collaborator is called only when
  \<^verbatim>\<open>db.connect()\<close> returns True; an exception is printed and swallowed.\<close>

definition log_file_movement :: "core \<Rightarrow> string \<Rightarrow> string \<Rightarrow> string list \<Rightarrow> core" where
  "log_file_movement st source_path dest_path tgs =
     (case db_connect st of
        Connects \<Rightarrow>
          (let oname = basename source_path;
               fsize = (if os_path_exists (files st) source_path
                        then (case os_path_getsize (files st) source_path of
                                Some n \<Rightarrow> n | None \<Rightarrow> 0)
                        else 0);
               ftype = get_file_type source_path
           in st\<lparr>audit_calls := audit_calls st @
                    [\<lparr>original_name = oname, new_path = dest_path, file_type = ftype,
                      file_size = fsize, tags = tgs\<rparr>]\<rparr>)
      | Refuses \<Rightarrow> st
      | Raises \<Rightarrow> st)"

text \<open>\<^verbatim>\<open>process_file\<close>; the call itself is recorded in \<open>process_calls\<close>.\<close>

definition process_file :: "core \<Rightarrow> string \<Rightarrow> string \<Rightarrow> core" where
  "process_file st0 file_path event_type =
     (let st = st0\<lparr>process_calls := process_calls st0 @ [(file_path, event_type)]\<rparr>
      in if \<not> should_process_file st file_path then st
         else (let tgs = get_file_tags file_path
               in case move_file st file_path (Some tgs) of
                    ((success, dest_path, msg), st1) \<Rightarrow>
                      if success then log_file_movement st1 file_path dest_path tgs
                      else st1))"

section \<open>Debounced scheduling\<close>

text \<open>\<^verbatim>\<open>timer.cancel()\<close>\<close>

definition cancel :: "nat \<Rightarrow> timer list \<Rightarrow> timer list" where
  "cancel h ts = (if h < length ts then ts[h := (ts ! h)\<lparr>t_finished := True\<rparr>] else ts)"

text \<open>\<^verbatim>\<open>schedule_file_processing\<close>: cancel the timer registered for the path, create and
  start a new one, register it.\<close>

definition schedule_file_processing :: "core \<Rightarrow> string \<Rightarrow> string \<Rightarrow> core" where
  "schedule_file_processing st file_path event_type =
     (let delay = delay_seconds st;
          ts = (case map_of (pending_files st) file_path of
                  Some h \<Rightarrow> cancel h (timers st)
                | None \<Rightarrow> timers st);
          tm = \<lparr>t_path = file_path, t_kind = event_type,
                t_deadline = clock st + delay, t_finished = False\<rparr>
      in st\<lparr>pending_files := AList.update file_path (length ts) (pending_files st),
            timers := ts @ [tm]\<rparr>)"

text \<open>\<^verbatim>\<open>Timer.run\<close> once the wait is over: call the function unless the timer was
  cancelled, then set \<^verbatim>\<open>finished\<close>.\<close>

definition run_timer :: "nat \<Rightarrow> core \<Rightarrow> core" where
  "run_timer h st =
     (let tm = timers st ! h
      in if t_finished tm \<or> clock st < t_deadline tm then st
         else (let st1 = process_file st (t_path tm) (t_kind tm)
               in st1\<lparr>timers := cancel h (timers st1)\<rparr>))"

text \<open>Time passes until \<open>t\<close>: every timer whose wait has ended by then runs, in the order
  of creation (all timers wait equally long, so this is the order of their deadlines).\<close>

definition advance :: "nat \<Rightarrow> core \<Rightarrow> core" where
  "advance t st =
     (let st1 = st\<lparr>clock := max (clock st) t\<rparr>
      in fold run_timer [0..<length (timers st1)] st1)"

text \<open>A notification for \<open>file_path\<close> arriving at time \<open>t\<close>.\<close>

definition notify :: "string \<Rightarrow> core \<Rightarrow> nat \<times> string \<Rightarrow> core" where
  "notify file_path st ev = schedule_file_processing (advance (fst ev) st) file_path (snd ev)"

section \<open>Watch session\<close>

fun add_watches :: "string list \<Rightarrow> core \<Rightarrow> core + core" where
  "add_watches [] st = Inr st"
| "add_watches (folder # rest) st =
     (if os_path_exists (files st) folder
      then (if schedule_raises st folder then Inl st
            else add_watches rest
                   (st\<lparr>watched_paths := AList.update folder True (watched_paths st)\<rparr>))
      else add_watches rest st)"

text \<open>\<^verbatim>\<open>start_watching\<close>; \<open>Inl\<close> of the loop is an exception of \<^verbatim>\<open>observer.schedule\<close>,
  caught by the handler that returns False.\<close>

definition start_watching :: "core \<Rightarrow> bool \<times> core" where
  "start_watching st =
     (if is_running st then (False, st)
      else (case add_watches (watched_folders st) st of
              Inl st1 \<Rightarrow> (False, st1)
            | Inr st1 \<Rightarrow>
                if watched_paths st1 = [] then (False, st1)
                else if start_raises st1 then (False, st1)
                else (True, st1\<lparr>is_running := True\<rparr>)))"

definition stop_watching :: "core \<Rightarrow> core" where
  "stop_watching st =
     (if \<not> is_running st then st
      else if stop_raises st then st
      else st\<lparr>is_running := False,
              timers := fold cancel (map snd (pending_files st)) (timers st),
              pending_files := []\<rparr>)"

record status =
  s_is_running :: bool
  s_watched_folders :: "string list"
  s_watched_count :: nat
  s_base_folder :: string
  s_pending_files :: nat

definition get_status :: "core \<Rightarrow> status" where
  "get_status st =
     \<lparr>s_is_running = is_running st,
      s_watched_folders = map fst (watched_paths st),
      s_watched_count = length (watched_paths st),
      s_base_folder = path_str (base_folder st),
      s_pending_files = length (pending_files st)\<rparr>"

text \<open>The object after \<^verbatim>\<open>__init__\<close> with the default configuration values, for given
  folders and a given world.\<close>

definition init_core ::
  "path \<Rightarrow> string list \<Rightarrow> filesystem \<Rightarrow> datetime \<Rightarrow> db_outcome \<Rightarrow> core" where
  "init_core base folders fsys now dbo =
     \<lparr>base_folder = base, watched_folders = folders, delay_seconds = 2,
      max_file_size_mb = 1000, ignore_patterns = default_ignore_patterns,
      watched_paths = [], is_running = False, pending_files = [], timers = [],
      clock = 0, files = fsys, wall_clock = now, db_connect = dbo,
      schedule_raises = (\<lambda>folder. False), start_raises = False, stop_raises = False,
      audit_calls = [], process_calls = []\<rparr>"

text \<open>Every timer that has not finished is the one registered for its path, and every
  registered handle is a timer for that path: what \<^verbatim>\<open>schedule_file_processing\<close>, the
  timers and \<^verbatim>\<open>stop_watching\<close> maintain from \<open>init_core\<close> on.\<close>

definition timers_ok :: "core \<Rightarrow> bool" where
  "timers_ok st =
     (list_all (\<lambda>h. t_finished (timers st ! h) \<or>
                     map_of (pending_files st) (t_path (timers st ! h)) = Some h)
               [0..<length (timers st)] \<and>
      list_all (\<lambda>(p, h). h < length (timers st) \<and> t_path (timers st ! h) = p)
               (pending_files st))"

section \<open>Notions used in the statements\<close>

text \<open>The relocation that \<^verbatim>\<open>process_file\<close> attempts for a path, and whether the path
  passes the filter and the move succeeds.\<close>

definition relocation :: "core \<Rightarrow> string \<Rightarrow> (bool \<times> string \<times> message) \<times> core" where
  "relocation st file_path = move_file st file_path (Some (get_file_tags file_path))"

definition relocates :: "core \<Rightarrow> string \<Rightarrow> bool" where
  "relocates st file_path =
     (should_process_file st file_path \<and> fst (fst (relocation st file_path)))"

text \<open>A burst of notifications \<open>(time, kind)\<close>: each one arrives no earlier than the
  previous one and less than \<open>d\<close> after it.\<close>

fun burst :: "nat \<Rightarrow> (nat \<times> string) list \<Rightarrow> bool" where
  "burst d [] = True"
| "burst d [e] = True"
| "burst d (e1 # e2 # es) = (fst e1 \<le> fst e2 \<and> fst e2 < fst e1 + d \<and> burst d (e2 # es))"

text \<open>The calls of \<^verbatim>\<open>process_file\<close> for one path, and the timers of one path that have
  not finished.\<close>

definition calls_for :: "string \<Rightarrow> core \<Rightarrow> (string \<times> string) list" where
  "calls_for file_path st = filter (\<lambda>c. fst c = file_path) (process_calls st)"

definition live_for :: "string \<Rightarrow> core \<Rightarrow> timer list" where
  "live_for file_path st =
     filter (\<lambda>tm. t_path tm = file_path \<and> \<not> t_finished tm) (timers st)"

text \<open>A small world for concrete runs: a download folder with one file of ten bytes, and
  the default configuration watching that folder and a folder that does not exist.\<close>

definition example_now :: datetime where
  "example_now = \<lparr>year = 2026, month = 1, day = 5, hour = 7, minute = 0, second = 59\<rparr>"

definition example_files :: filesystem where
  "example_files = [parse_path ''dl'' \<mapsto> Dir 0,
                    parse_path ''dl/invoice_2023.pdf'' \<mapsto> File 10]"

definition example_core :: "db_outcome \<Rightarrow> core" where
  "example_core dbo =
     init_core (parse_path ''./Organized_Files'') [''missing'', ''dl''] example_files
       example_now dbo"

text \<open>A timer is due at time \<open>c\<close> when its wait has ended and it was not cancelled;
  firing sets \<^verbatim>\<open>finished\<close>; the call it makes is \<open>(path, kind)\<close>.\<close>

definition due :: "nat \<Rightarrow> timer \<Rightarrow> bool" where
  "due c tm = (\<not> t_finished tm \<and> t_deadline tm \<le> c)"

definition fire :: "nat \<Rightarrow> timer \<Rightarrow> timer" where
  "fire c tm = (if due c tm then tm\<lparr>t_finished := True\<rparr> else tm)"

definition call_of :: "timer \<Rightarrow> string \<times> string" where
  "call_of tm = (t_path tm, t_kind tm)"

text \<open>After a notification for a path at time \<open>t\<close> with kind \<open>k\<close>: the only timer of the
  path that has not finished is the one created then.\<close>

definition settled :: "string \<Rightarrow> core \<Rightarrow> nat \<Rightarrow> string \<Rightarrow> bool" where
  "settled P st t k =
     (timers_ok st \<and> clock st = t \<and>
      live_for P st = [\<lparr>t_path = P, t_kind = k, t_deadline = t + delay_seconds st,
                        t_finished = False\<rparr>])"


section \<open>Case conversion commutes with path analysis\<close>


lemma lower_char_cases:
  "lower_char c = c \<or> (c \<in> set ascii_uppercase \<and> lower_char c \<in> set ascii_lowercase)"
proof (cases "map_of (zip ascii_uppercase ascii_lowercase) c")
  case None
  then show ?thesis by (simp add: lower_char_def)
next
  case (Some d)
  then have "(c, d) \<in> set (zip ascii_uppercase ascii_lowercase)"
    by (rule map_of_SomeD)
  then have "c \<in> set ascii_uppercase" "d \<in> set ascii_lowercase"
    by (auto dest: set_zip_leftD set_zip_rightD)
  with Some show ?thesis by (simp add: lower_char_def)
qed

lemma slash_not_letter: "CHR ''/'' \<notin> set ascii_uppercase" "CHR ''/'' \<notin> set ascii_lowercase"
  by (simp_all add: ascii_uppercase_def ascii_lowercase_def)

lemma dot_not_letter: "CHR ''.'' \<notin> set ascii_uppercase" "CHR ''.'' \<notin> set ascii_lowercase"
  by (simp_all add: ascii_uppercase_def ascii_lowercase_def)

lemma lower_char_slash [simp]: "lower_char c = CHR ''/'' \<longleftrightarrow> c = CHR ''/''"
  using lower_char_cases [of c] slash_not_letter by metis

lemma lower_char_dot [simp]: "lower_char c = CHR ''.'' \<longleftrightarrow> c = CHR ''.''"
  using lower_char_cases [of c] dot_not_letter by metis


lemma length_lower [simp]: "length (lower s) = length s"
  by (simp add: lower_def)

lemma rfind_lower:
  assumes "\<And>x. lower_char x = c \<longleftrightarrow> x = c"
  shows "rfind (lower s) c = rfind s c"
proof -
  have "takeWhile (\<lambda>x. x \<noteq> c) (map lower_char (rev s)) =
        map lower_char (takeWhile ((\<lambda>x. x \<noteq> c) \<circ> lower_char) (rev s))"
    by (rule takeWhile_map)
  also have "(\<lambda>x. x \<noteq> c) \<circ> lower_char = (\<lambda>x. x \<noteq> c)"
    using assms by (simp add: fun_eq_iff)
  finally have len: "length (takeWhile (\<lambda>x. x \<noteq> c) (rev (map lower_char s))) =
                     length (takeWhile (\<lambda>x. x \<noteq> c) (rev s))"
    by (simp add: rev_map)
  have mem: "c \<in> set (map lower_char s) \<longleftrightarrow> c \<in> set s"
  proof
    assume "c \<in> set (map lower_char s)"
    then obtain x where "x \<in> set s" "lower_char x = c" by auto
    with assms show "c \<in> set s" by metis
  next
    assume "c \<in> set s"
    moreover have "lower_char c = c" using assms by metis
    ultimately show "c \<in> set (map lower_char s)" by force
  qed
  show ?thesis
    unfolding rfind_def lower_def using len mem by simp
qed

lemma rfind_lower_slash [simp]: "rfind (lower s) CHR ''/'' = rfind s CHR ''/''"
  by (rule rfind_lower) simp

lemma rfind_lower_dot [simp]: "rfind (lower s) CHR ''.'' = rfind s CHR ''.''"
  by (rule rfind_lower) simp



lemma lower_Nil [simp]: "lower [] = []"
  by (simp add: lower_def)




lemma lower_char_slash_id [simp]: "lower_char CHR ''/'' = CHR ''/''"
  using lower_char_slash [of "CHR ''/''"] by simp

lemma lower_char_dot_id [simp]: "lower_char CHR ''.'' = CHR ''.''"
  using lower_char_dot [of "CHR ''.''"] by simp

lemma lower_Cons [simp]: "lower (c # cs) = lower_char c # lower cs"
  by (simp add: lower_def)

lemma split_on_neq_Nil [simp]: "split_on c s \<noteq> []"
  by (induction s) (auto split: list.splits)


lemma lower_eq_Nil [simp]: "lower x = [] \<longleftrightarrow> x = []"
  by (simp add: lower_def)

lemma lower_eq_dot [simp]: "lower x = ''.'' \<longleftrightarrow> x = ''.''"
  by (cases x) (simp_all add: lower_def)


lemma lower_eq_slash [simp]: "lower x = ''/'' \<longleftrightarrow> x = ''/''"
  by (cases x) (simp_all add: lower_def)






section \<open>Classification\<close>

text \<open>
  C5. A file named \<open>invoice_2023.pdf\<close> gets exactly the sorted tags \<open>dated\<close>,
  \<open>finance\<close>, \<open>type_pdf\<close>; with these tags its destination folder is
  \<open>Finance_Files\<close> under the destination root, although its category is \<open>PDFs\<close>:
  the priority tag overrides the category folder.
\<close>

theorem invoice_classification:
  "get_file_tags ''invoice_2023.pdf'' = [''dated'', ''finance'', ''type_pdf''] \<and>
   get_destination_folder base ''invoice_2023.pdf'' (Some (get_file_tags ''invoice_2023.pdf''))
     = path_div base ''Finance_Files'' \<and>
   get_file_type ''invoice_2023.pdf'' = ''PDFs'' \<and>
   get_destination_folder base ''invoice_2023.pdf'' None = path_div base ''PDFs''"
proof -
  have tags: "get_file_tags ''invoice_2023.pdf'' = [''dated'', ''finance'', ''type_pdf'']"
    by code_simp
  have ty: "get_file_type ''invoice_2023.pdf'' = ''PDFs''"
    by code_simp
  have pr: "find (\<lambda>priority_tag. priority_tag \<in> set [''dated'', ''finance'', ''type_pdf''])
              priority_tags = Some ''finance''"
    by code_simp
  have ti: "title ''finance'' @ ''_Files'' = ''Finance_Files''"
    by code_simp
  have d1: "get_destination_folder base ''invoice_2023.pdf''
              (Some [''dated'', ''finance'', ''type_pdf'']) = path_div base ''Finance_Files''"
    by (simp only: get_destination_folder_def Let_def option.simps list.distinct if_False pr ti)
  have d2: "get_destination_folder base ''invoice_2023.pdf'' None = path_div base ''PDFs''"
    by (simp only: get_destination_folder_def Let_def option.simps ty)
  show ?thesis
    by (simp only: tags ty d1 d2 simp_thms)
qed



section \<open>Ignore patterns on the documented examples\<close>

text \<open>
  C3. On the documented examples: \<open>*.tmp\<close> matches \<open>download.tmp\<close> and \<open>~*\<close> matches
  \<open>~lockfile\<close>, but the plain pattern \<open>Thumbs.db\<close> matches neither \<open>Thumbs.db\<close> nor
  \<open>xThumbs.dby\<close>: the file name is compared in lower case with a pattern that keeps
  its capital letter. The same holds under the default patterns, which list
  \<open>Thumbs.db\<close> and \<open>.DS_Store\<close>.
\<close>

theorem ignore_examples:
  "should_ignore_file [''*.tmp''] ''download.tmp'' \<and>
   should_ignore_file [''~*''] ''~lockfile'' \<and>
   \<not> should_ignore_file [''Thumbs.db''] ''Thumbs.db'' \<and>
   \<not> should_ignore_file [''Thumbs.db''] ''xThumbs.dby'' \<and>
   \<not> should_ignore_file default_ignore_patterns ''Thumbs.db'' \<and>
   \<not> should_ignore_file default_ignore_patterns ''.DS_Store''"
  by code_simp


section \<open>Conflict resolution\<close>


lemma stem_suffix_name: "stem_of_name n @ suffix_of_name n = n"
  by (simp add: stem_of_name_def suffix_of_name_def Let_def)

lemma set_stem_subset: "set (stem_of_name n) \<subseteq> set n"
  by (auto simp: stem_of_name_def Let_def dest: in_set_takeD)

lemma set_suffix_subset: "set (suffix_of_name n) \<subseteq> set n"
  by (auto simp: suffix_of_name_def Let_def dest: in_set_dropD)

lemma digit_char_in_digits: "digit_char d \<in> set digits"
  unfolding digit_char_def by (rule nth_mem) (simp add: digits_def)

lemma slash_not_digit: "CHR ''/'' \<notin> set digits"
  by (simp add: digits_def)

lemma str_of_nat_no_slash: "CHR ''/'' \<notin> set (str_of_nat n)"
proof (induction n rule: str_of_nat.induct)
  case (1 n)
  have d: "CHR ''/'' \<noteq> digit_char k" for k
    using digit_char_in_digits [of k] slash_not_digit by auto
  show ?case
  proof (cases "n < 10")
    case True
    then show ?thesis using d by (subst str_of_nat.simps) simp
  next
    case False
    then show ?thesis using d 1 by (subst str_of_nat.simps) simp
  qed
qed

lemma zfill_no_slash: "CHR ''/'' \<notin> set s \<Longrightarrow> CHR ''/'' \<notin> set (zfill w s)"
  by (simp add: zfill_def)

lemma strftime_stamp_no_slash: "CHR ''/'' \<notin> set (strftime_stamp d)"
  by (simp add: strftime_stamp_def zfill_no_slash str_of_nat_no_slash)

lemma split_on_single: "c \<notin> set s \<Longrightarrow> split_on c s = [s]"
  by (induction s) auto

lemma rel_parts_single:
  "s \<noteq> [] \<Longrightarrow> s \<noteq> ''.'' \<Longrightarrow> CHR ''/'' \<notin> set s \<Longrightarrow> rel_parts s = [s]"
  by (simp add: rel_parts_def split_on_single)

lemma path_div_single:
  assumes "s \<noteq> []" "s \<noteq> ''.''" "CHR ''/'' \<notin> set s"
  shows "path_div p s = Path (root p) (parts p @ [s])"
proof -
  have "take 1 s \<noteq> ''/''"
    using assms by (cases s) auto
  then show ?thesis
    using assms by (simp add: path_div_def rel_parts_single)
qed

lemma wf_name_no_slash: "wf_path p \<Longrightarrow> CHR ''/'' \<notin> set (name p)"
  by (cases "parts p" rule: rev_cases) (auto simp: wf_path_def name_def)

lemma sibling_parts:
  assumes "CHR ''/'' \<notin> set (name d)" "CHR ''/'' \<notin> set mid"
  shows "path_div (parent d) (stem d @ ''_'' @ mid @ suffix d) =
         Path (root d) (parts (parent d) @ [stem d @ ''_'' @ mid @ suffix d])"
proof -
  let ?x = "stem d @ ''_'' @ mid @ suffix d"
  have "CHR ''/'' \<notin> set (stem d)" "CHR ''/'' \<notin> set (suffix d)"
    using assms(1) set_stem_subset [of "name d"] set_suffix_subset [of "name d"]
    by (auto simp: stem_def suffix_def)
  then have a: "CHR ''/'' \<notin> set ?x"
    using assms(2) by simp
  have b: "CHR ''_'' \<in> set ?x" by simp
  have c: "?x \<noteq> []" by simp
  have d: "?x \<noteq> ''.''"
  proof
    assume e: "?x = ''.''"
    from b have "CHR ''_'' \<in> set ''.''" unfolding e .
    then show False by simp
  qed
  have r: "root (parent d) = root d"
    by (simp add: parent_def)
  show ?thesis
    using path_div_single [OF c d a, of "parent d"] r by simp
qed

lemma sibling_name_neq:
  assumes "CHR ''/'' \<notin> set (name d)" "CHR ''/'' \<notin> set mid"
  shows "name (path_div (parent d) (stem d @ ''_'' @ mid @ suffix d)) \<noteq> name d"
proof -
  have "length (stem_of_name (name d) @ suffix_of_name (name d)) = length (name d)"
    by (simp only: stem_suffix_name)
  then have "length (stem d @ ''_'' @ mid @ suffix d) > length (name d)"
    by (simp add: stem_def suffix_def)
  then have "stem d @ ''_'' @ mid @ suffix d \<noteq> name d"
    by (metis less_irrefl)
  moreover have "name (path_div (parent d) (stem d @ ''_'' @ mid @ suffix d)) =
                 stem d @ ''_'' @ mid @ suffix d"
    by (simp only: sibling_parts [OF assms] name_def path.sel) simp
  ultimately show ?thesis by simp
qed

lemma sibling_neq:
  assumes "CHR ''/'' \<notin> set (name d)" "CHR ''/'' \<notin> set mid"
  shows "path_div (parent d) (stem d @ ''_'' @ mid @ suffix d) \<noteq> d"
  using sibling_name_neq [OF assms] by auto

lemma conflict_loop_free: "conflict_loop ex b s par c = Some p \<Longrightarrow> \<not> ex p"
proof (induction ex b s par c rule: conflict_loop.induct)
  case (1 ex base sfx par counter)
  from "1.prems" show ?case
    by (subst (asm) conflict_loop.simps)
       (auto simp: Let_def split: if_splits dest: "1.IH" [OF _ refl refl])
qed

lemma conflict_loop_first:
  "c \<le> n \<Longrightarrow> n \<le> 1000 \<Longrightarrow> \<not> ex (path_div par (b @ ''_'' @ str_of_nat n @ s)) \<Longrightarrow>
   (\<And>m. c \<le> m \<Longrightarrow> m < n \<Longrightarrow> ex (path_div par (b @ ''_'' @ str_of_nat m @ s))) \<Longrightarrow>
   conflict_loop ex b s par c = Some (path_div par (b @ ''_'' @ str_of_nat n @ s))"
proof (induction ex b s par c rule: conflict_loop.induct)
  case (1 ex base sfx par counter)
  show ?case
  proof (cases "counter = n")
    case True
    then show ?thesis
      using "1.prems" by (subst conflict_loop.simps) (simp add: Let_def)
  next
    case False
    then have lt: "counter < n" using "1.prems"(1) by simp
    then have here: "ex (path_div par (base @ ''_'' @ str_of_nat counter @ sfx))"
      using "1.prems"(4) by simp
    have le: "counter \<le> 1000" using lt "1.prems"(2) by simp
    have "conflict_loop ex base sfx par (counter + 1) =
          Some (path_div par (base @ ''_'' @ str_of_nat n @ sfx))"
    proof (rule "1.IH" [OF le refl refl])
      show "\<not> \<not> ex (path_div par (base @ ''_'' @ str_of_nat counter @ sfx))"
        using here by simp
      show "counter + 1 \<le> n" using lt by simp
      show "n \<le> 1000" by (rule "1.prems"(2))
      show "\<not> ex (path_div par (base @ ''_'' @ str_of_nat n @ sfx))" by (rule "1.prems"(3))
      show "ex (path_div par (base @ ''_'' @ str_of_nat m @ sfx))"
        if "counter + 1 \<le> m" "m < n" for m
        using that "1.prems"(4) [of m] by simp
    qed
    then show ?thesis
      using here le by (subst conflict_loop.simps) (simp add: Let_def)
  qed
qed

lemma conflict_loop_exhausted:
  "(\<And>n. c \<le> n \<Longrightarrow> n \<le> 1000 \<Longrightarrow> ex (path_div par (b @ ''_'' @ str_of_nat n @ s))) \<Longrightarrow>
   conflict_loop ex b s par c = None"
proof (induction ex b s par c rule: conflict_loop.induct)
  case (1 ex base sfx par counter)
  show ?case
  proof (cases "counter \<le> 1000")
    case False
    then show ?thesis by (subst conflict_loop.simps) simp
  next
    case True
    then have here: "ex (path_div par (base @ ''_'' @ str_of_nat counter @ sfx))"
      using "1.prems" [of counter] by simp
    have "conflict_loop ex base sfx par (counter + 1) = None"
    proof (rule "1.IH" [OF True refl refl])
      show "\<not> \<not> ex (path_div par (base @ ''_'' @ str_of_nat counter @ sfx))"
        using here by simp
      show "ex (path_div par (base @ ''_'' @ str_of_nat n @ sfx))"
        if "counter + 1 \<le> n" "n \<le> 1000" for n
        using that "1.prems" [of n] by simp
    qed
    then show ?thesis
      using here True by (subst conflict_loop.simps) (simp add: Let_def)
  qed
qed

text \<open>
  C6. For a destination that does not exist the result is the destination itself. For one
  that exists the result is never the destination: it is the first of the numbered
  candidates \<open><stem>_1<suffix>\<close> to \<open><stem>_1000<suffix>\<close> that does not exist, and
  when all thousand exist it is the timestamp candidate, whose existence is not checked.
  The candidates lie beside the destination and keep its suffix.
\<close>

theorem handle_filename_conflict_spec:
  assumes wf: "wf_path dest"
  shows "(\<not> ex dest \<longrightarrow> handle_filename_conflict ex now dest = dest) \<and>
         (ex dest \<longrightarrow>
            handle_filename_conflict ex now dest \<noteq> dest \<and>
            (\<forall>n. 1 \<le> n \<and> n \<le> 1000 \<and> \<not> ex (numbered dest n) \<and>
                 (\<forall>m. 1 \<le> m \<and> m < n \<longrightarrow> ex (numbered dest m)) \<longrightarrow>
                 handle_filename_conflict ex now dest = numbered dest n) \<and>
            ((\<forall>n. 1 \<le> n \<and> n \<le> 1000 \<longrightarrow> ex (numbered dest n)) \<longrightarrow>
                 handle_filename_conflict ex now dest = stamped dest now)) \<and>
         parts (numbered dest k) =
           parts (parent dest) @ [stem dest @ ''_'' @ str_of_nat k @ suffix dest] \<and>
         parts (stamped dest now) =
           parts (parent dest) @ [stem dest @ ''_'' @ strftime_stamp now @ suffix dest]"
proof -
  let ?loop = "conflict_loop ex (stem dest) (suffix dest) (parent dest) 1"
  have keep: "handle_filename_conflict ex now dest = dest" if "\<not> ex dest"
    using that by (simp add: handle_filename_conflict_def)
  have res: "handle_filename_conflict ex now dest =
               (case ?loop of Some p \<Rightarrow> p | None \<Rightarrow> stamped dest now)" if "ex dest"
    using that by (simp add: handle_filename_conflict_def stamped_def Let_def split: option.splits)
  have neq: "handle_filename_conflict ex now dest \<noteq> dest" if e: "ex dest"
  proof (cases ?loop)
    case None
    have "stamped dest now \<noteq> dest"
      unfolding stamped_def by (rule sibling_neq [OF wf_name_no_slash [OF wf] strftime_stamp_no_slash])
    with None res [OF e] show ?thesis by simp
  next
    case (Some p)
    then have "\<not> ex p" by (rule conflict_loop_free)
    with e have "p \<noteq> dest" by auto
    with Some res [OF e] show ?thesis by simp
  qed
  have first: "handle_filename_conflict ex now dest = numbered dest n"
    if e: "ex dest" and n: "1 \<le> n" "n \<le> 1000" "\<not> ex (numbered dest n)"
      and below: "\<forall>m. 1 \<le> m \<and> m < n \<longrightarrow> ex (numbered dest m)" for n
  proof -
    have "?loop = Some (numbered dest n)"
      unfolding numbered_def
      using n below by (intro conflict_loop_first) (auto simp: numbered_def)
    with res [OF e] show ?thesis by simp
  qed
  have fallback: "handle_filename_conflict ex now dest = stamped dest now"
    if e: "ex dest" and all: "\<forall>n. 1 \<le> n \<and> n \<le> 1000 \<longrightarrow> ex (numbered dest n)"
  proof -
    have "?loop = None"
      using all by (intro conflict_loop_exhausted) (auto simp: numbered_def)
    with res [OF e] show ?thesis by simp
  qed
  have pn: "parts (numbered dest k) =
              parts (parent dest) @ [stem dest @ ''_'' @ str_of_nat k @ suffix dest]"
    unfolding numbered_def by (simp only: sibling_parts [OF wf_name_no_slash [OF wf] str_of_nat_no_slash] path.sel)
  have ps: "parts (stamped dest now) =
              parts (parent dest) @ [stem dest @ ''_'' @ strftime_stamp now @ suffix dest]"
    unfolding stamped_def by (simp only: sibling_parts [OF wf_name_no_slash [OF wf] strftime_stamp_no_slash] path.sel)
  from keep neq first fallback pn ps show ?thesis by blast
qed

lemma split_on_no_sep: "x \<in> set (split_on c s) \<Longrightarrow> c \<notin> set x"
proof (induction s arbitrary: x)
  case Nil
  then show ?case by simp
next
  case (Cons a s)
  obtain w ws where w: "split_on c s = w # ws"
    by (cases "split_on c s") simp_all
  show ?case
  proof (cases "a = c")
    case True
    with Cons show ?thesis by auto
  next
    case False
    with Cons.prems w have "x = a # w \<or> x \<in> set ws" by simp
    moreover have "c \<notin> set w" "\<And>y. y \<in> set ws \<Longrightarrow> c \<notin> set y"
      using Cons.IH w by simp_all
    ultimately show ?thesis using False by auto
  qed
qed

lemma rel_parts_wf:
  "list_all (\<lambda>x. x \<noteq> [] \<and> x \<noteq> ''.'' \<and> CHR ''/'' \<notin> set x) (rel_parts s)"
  by (auto simp: rel_parts_def list_all_iff dest: split_on_no_sep)

lemma parse_path_wf: "wf_path (parse_path s)"
  by (simp add: wf_path_def parse_path_def rel_parts_wf split: prod.splits)

lemma path_div_wf: "wf_path p \<Longrightarrow> wf_path (path_div p s)"
  using parse_path_wf [of s] rel_parts_wf [of s]
  by (simp add: wf_path_def path_div_def)


theorem handle_filename_conflict_spec_witness:
  "wf_path (parse_path ''d/report.docx'') \<and>
   handle_filename_conflict (\<lambda>p. False)
     \<lparr>year = 2026, month = 1, day = 5, hour = 7, minute = 0, second = 59\<rparr>
     (parse_path ''d/report.docx'') = parse_path ''d/report.docx'' \<and>
   handle_filename_conflict (\<lambda>p. p = parse_path ''d/report.docx'')
     \<lparr>year = 2026, month = 1, day = 5, hour = 7, minute = 0, second = 59\<rparr>
     (parse_path ''d/report.docx'') = parse_path ''d/report_1.docx'' \<and>
   handle_filename_conflict (\<lambda>p. True)
     \<lparr>year = 2026, month = 1, day = 5, hour = 7, minute = 0, second = 59\<rparr>
     (parse_path ''d/report.docx'') = parse_path ''d/report_20260105_070059.docx''"
proof -
  let ?d = "parse_path ''d/report.docx''"
  let ?now = "\<lparr>year = 2026, month = 1, day = 5, hour = 7, minute = 0, second = 59\<rparr>"
  have w: "wf_path ?d"
    by code_simp
  have n1: "numbered ?d 1 = parse_path ''d/report_1.docx''"
    by code_simp
  have st: "stamped ?d ?now = parse_path ''d/report_20260105_070059.docx''"
    by code_simp
  have ne: "parse_path ''d/report_1.docx'' \<noteq> ?d"
    by code_simp
  have a: "handle_filename_conflict (\<lambda>p. False) ?now ?d = ?d"
    using handle_filename_conflict_spec [OF w, where ex = "\<lambda>p. False" and now = ?now]
    by simp
  have cond: "1 \<le> (1::nat) \<and> (1::nat) \<le> 1000 \<and> \<not> numbered ?d 1 = ?d \<and>
              (\<forall>m. 1 \<le> m \<and> m < (1::nat) \<longrightarrow> numbered ?d m = ?d)"
    using n1 ne by simp
  have b: "handle_filename_conflict (\<lambda>p. p = ?d) ?now ?d = numbered ?d 1"
    using handle_filename_conflict_spec [OF w, where ex = "\<lambda>p. p = ?d" and now = ?now]
      cond by blast
  have c: "handle_filename_conflict (\<lambda>p. True) ?now ?d = stamped ?d ?now"
    using handle_filename_conflict_spec [OF w, where ex = "\<lambda>p. True" and now = ?now]
    by simp
  from w a b c n1 st show ?thesis by simp
qed


section \<open>What processing a file changes\<close>

lemma move_file_frame: "\<exists>F. snd (move_file st p t) = st\<lparr>files := F\<rparr>"
proof -
  have "snd (move_file st p t) = st\<lparr>files := files (snd (move_file st p t))\<rparr>"
    by (simp add: move_file_def Let_def split: sum.splits)
  then show ?thesis by (rule exI [of _ "files (snd (move_file st p t))"])
qed

lemma move_file_calls:
  "move_file (st\<lparr>process_calls := X\<rparr>) p t =
     (fst (move_file st p t), (snd (move_file st p t))\<lparr>process_calls := X\<rparr>)"
  by (simp add: move_file_def Let_def split: sum.splits)

lemma should_process_file_calls [simp]:
  "should_process_file (st\<lparr>process_calls := X\<rparr>) p = should_process_file st p"
  by (simp add: should_process_file_def)

lemma log_file_movement_frame: "\<exists>A. log_file_movement st p d t = st\<lparr>audit_calls := A\<rparr>"
proof -
  have "log_file_movement st p d t =
          st\<lparr>audit_calls := audit_calls (log_file_movement st p d t)\<rparr>"
    by (simp add: log_file_movement_def Let_def split: db_outcome.splits)
  then show ?thesis by (rule exI [of _ "audit_calls (log_file_movement st p d t)"])
qed

lemma process_file_relocated:
  assumes "relocates st p"
  shows "process_file st p k =
           log_file_movement
             ((snd (relocation st p))\<lparr>process_calls := process_calls st @ [(p, k)]\<rparr>)
             p (fst (snd (fst (relocation st p)))) (get_file_tags p)"
  using assms
  by (simp add: process_file_def relocates_def relocation_def Let_def move_file_calls
      case_prod_beta)

lemma process_file_not_relocated:
  assumes "\<not> relocates st p"
  shows "process_file st p k =
           (if should_process_file st p then snd (relocation st p) else st)
             \<lparr>process_calls := process_calls st @ [(p, k)]\<rparr>"
  using assms
  by (simp add: process_file_def relocates_def relocation_def Let_def move_file_calls
      case_prod_beta)

lemma process_file_frame:
  "\<exists>F A. process_file st p k =
     st\<lparr>files := F, audit_calls := A, process_calls := process_calls st @ [(p, k)]\<rparr>"
proof -
  obtain F where F: "snd (relocation st p) = st\<lparr>files := F\<rparr>"
    unfolding relocation_def using move_file_frame by blast
  show ?thesis
  proof (cases "relocates st p")
    case True
    obtain A where
      "log_file_movement (st\<lparr>files := F, process_calls := process_calls st @ [(p, k)]\<rparr>)
         p (fst (snd (fst (relocation st p)))) (get_file_tags p) =
       st\<lparr>files := F, process_calls := process_calls st @ [(p, k)], audit_calls := A\<rparr>"
      using log_file_movement_frame by blast
    then have "process_file st p k =
       st\<lparr>files := F, audit_calls := A, process_calls := process_calls st @ [(p, k)]\<rparr>"
      by (simp add: process_file_relocated [OF True] F)
    then show ?thesis by blast
  next
    case False
    have "process_file st p k =
       st\<lparr>files := (if should_process_file st p then F else files st),
          audit_calls := audit_calls st,
          process_calls := process_calls st @ [(p, k)]\<rparr>"
      by (simp add: process_file_not_relocated [OF False] F)
    then show ?thesis by blast
  qed
qed

lemma process_file_fields [simp]:
  "timers (process_file st p k) = timers st"
  "pending_files (process_file st p k) = pending_files st"
  "clock (process_file st p k) = clock st"
  "delay_seconds (process_file st p k) = delay_seconds st"
  "is_running (process_file st p k) = is_running st"
  "process_calls (process_file st p k) = process_calls st @ [(p, k)]"
proof -
  obtain F A where "process_file st p k =
     st\<lparr>files := F, audit_calls := A, process_calls := process_calls st @ [(p, k)]\<rparr>"
    using process_file_frame by blast
  then show
    "timers (process_file st p k) = timers st"
    "pending_files (process_file st p k) = pending_files st"
    "clock (process_file st p k) = clock st"
    "delay_seconds (process_file st p k) = delay_seconds st"
    "is_running (process_file st p k) = is_running st"
    "process_calls (process_file st p k) = process_calls st @ [(p, k)]"
    by simp_all
qed



section \<open>A successful move leaves nothing at the source\<close>


lemma mkdir_parents_keeps:
  "mkdir_parents fsys p = Inr fsys' \<Longrightarrow> fsys q \<noteq> None \<Longrightarrow> fsys' q = fsys q"
proof (induction fsys p arbitrary: fsys' rule: mkdir_parents.induct)
  case (1 fsys p)
  show ?case
  proof (cases "stat fsys p")
    case (Some nd)
    with "1.prems" show ?thesis
      by (subst (asm) mkdir_parents.simps) (auto split: node.splits)
  next
    case None
    then have pn: "parts p \<noteq> []" "fsys p = None"
      by (auto simp: stat_def split: if_splits)
    with "1.prems"(2) have qp: "q \<noteq> p" by auto
    show ?thesis
    proof (cases "stat fsys (parent p)")
      case (Some nd)
      with None pn "1.prems"(1) qp show ?thesis
        by (subst (asm) mkdir_parents.simps) (auto split: node.splits)
    next
      case None': None
      from "1.prems"(1) None None' pn obtain f1 where
        f1: "mkdir_parents fsys (parent p) = Inr f1" and e: "fsys' = f1(p \<mapsto> Dir 0)"
        by (subst (asm) mkdir_parents.simps) (auto split: sum.splits)
      have "f1 q = fsys q"
        using "1.IH" [OF None pn(1) None' f1 "1.prems"(2)] .
      with e qp show ?thesis by simp
    qed
  qed
qed

lemma name_parse_path_ok:
  assumes "parts (parse_path s) \<noteq> []"
  shows "name (parse_path s) \<noteq> []" "name (parse_path s) \<noteq> ''.''"
    "CHR ''/'' \<notin> set (name (parse_path s))"
proof -
  have "last (parts (parse_path s)) \<in> set (parts (parse_path s))"
    using assms by simp
  then have "name (parse_path s) \<in> set (parts (parse_path s))"
    using assms by (simp add: name_def)
  with parse_path_wf [of s] show "name (parse_path s) \<noteq> []" "name (parse_path s) \<noteq> ''.''"
    "CHR ''/'' \<notin> set (name (parse_path s))"
    by (auto simp: wf_path_def list_all_iff)
qed

lemma name_snoc: "name (Path r (ps @ [x])) = x"
  by (simp add: name_def)

lemma handle_filename_conflict_cases:
  "handle_filename_conflict ex now d = d \<and> \<not> ex d \<or>
   \<not> ex (handle_filename_conflict ex now d) \<or>
   handle_filename_conflict ex now d =
     path_div (parent d) (stem d @ ''_'' @ strftime_stamp now @ suffix d)"
proof (cases "ex d")
  case False
  then show ?thesis by (simp add: handle_filename_conflict_def)
next
  case True
  show ?thesis
  proof (cases "conflict_loop ex (stem d) (suffix d) (parent d) 1")
    case None
    with True show ?thesis by (simp add: handle_filename_conflict_def Let_def)
  next
    case (Some q)
    then have "\<not> ex q" by (rule conflict_loop_free)
    with True Some show ?thesis by (simp add: handle_filename_conflict_def Let_def)
  qed
qed

lemma move_file_success:
  assumes ok: "fst (fst (move_file st p t))"
  shows "\<exists>f1 dst.
           is_file (files st) (parse_path p) \<and>
           dst = handle_filename_conflict (path_exists (files st)) (wall_clock st)
                   (path_div (get_destination_folder (base_folder st) p t)
                      (name (parse_path p))) \<and>
           mkdir_parents (files st) (parent dst) = Inr f1 \<and>
           shutil_move f1 (parse_path p) dst = Inr (files (snd (move_file st p t))) \<and>
           fst (snd (fst (move_file st p t))) = path_str dst"
  using ok by (auto simp: move_file_def Let_def split: if_splits sum.splits)

lemma move_file_source_gone:
  assumes ok: "fst (fst (move_file st p t))"
  shows "\<not> os_path_exists (files (snd (move_file st p t))) p"
proof -
  define src where "src = parse_path p"
  define folder where "folder = get_destination_folder (base_folder st) p t"
  define d0 where "d0 = path_div folder (name src)"
  define ex where "ex = path_exists (files st)"
  define dst where "dst = handle_filename_conflict ex (wall_clock st) d0"
  define f2 where "f2 = files (snd (move_file st p t))"
  from move_file_success [OF ok] obtain f1 where
    isf: "is_file (files st) src" and
    f1: "mkdir_parents (files st) (parent dst) = Inr f1" and
    f2: "shutil_move f1 src dst = Inr f2"
    unfolding src_def folder_def d0_def ex_def dst_def f2_def by blast
  from isf have pn: "parts src \<noteq> []" and fsrc: "files st src \<noteq> None"
    by (auto simp: is_file_def stat_def split: if_splits option.splits node.splits)
  have exsrc: "ex src"
    using pn fsrc by (simp add: ex_def path_exists_def stat_def)
  have f1src: "f1 src = files st src"
    using mkdir_parents_keeps [OF f1 fsrc] .
  then have ex1: "path_exists f1 src"
    using fsrc pn by (simp add: path_exists_def stat_def)
  have nm: "name src \<noteq> []" "name src \<noteq> ''.''" "CHR ''/'' \<notin> set (name src)"
    using name_parse_path_ok [of p] pn unfolding src_def by blast+
  have d0: "d0 = Path (root folder) (parts folder @ [name src])"
    unfolding d0_def by (rule path_div_single [OF nm])
  have nd0: "name d0 = name src"
    unfolding d0 by (rule name_snoc)
  have ns0: "CHR ''/'' \<notin> set (name d0)"
    unfolding nd0 by (rule nm(3))
  have stamp: "name (path_div (parent d0)
                 (stem d0 @ ''_'' @ strftime_stamp (wall_clock st) @ suffix d0)) \<noteq> name src"
    using sibling_name_neq [OF ns0 strftime_stamp_no_slash] unfolding nd0 .
  have dst_neq: "dst \<noteq> src"
  proof
    assume e: "dst = src"
    from handle_filename_conflict_cases [of ex "wall_clock st" d0]
    consider "dst = d0" "\<not> ex d0" | "\<not> ex dst"
      | "dst = path_div (parent d0)
                 (stem d0 @ ''_'' @ strftime_stamp (wall_clock st) @ suffix d0)"
      unfolding dst_def by blast
    then show False
    proof cases
      case 1
      with e exsrc show False by simp
    next
      case 2
      with e exsrc show False by simp
    next
      case 3
      with e stamp show False by simp
    qed
  qed
  define real where "real = (if is_dir f1 dst then path_div dst (name src) else dst)"
  from f2 have noclash: "\<not> (is_dir f1 dst \<and> path_exists f1 real)"
    and f2eq: "f2 = (f1(src := None))(real := f1 src)"
    unfolding real_def by (auto simp: shutil_move_def Let_def split: if_splits)
  have "real \<noteq> src"
  proof (cases "is_dir f1 dst")
    case True
    with noclash have "\<not> path_exists f1 real" by simp
    with ex1 show ?thesis by auto
  next
    case False
    with dst_neq show ?thesis by (simp add: real_def)
  qed
  then have "f2 src = None"
    by (simp add: f2eq)
  then have "\<not> path_exists f2 src"
    using pn by (simp add: path_exists_def stat_def)
  then show ?thesis
    by (simp add: os_path_exists_def f2_def src_def)
qed


section \<open>The audit record of a relocation\<close>


lemma process_file_audit:
  "audit_calls (process_file st p k) =
     audit_calls st @
     (if relocates st p \<and> db_connect st = Connects
      then [\<lparr>original_name = basename p,
             new_path = fst (snd (fst (relocation st p))),
             file_type = get_file_type p,
             file_size = (if os_path_exists (files (snd (relocation st p))) p
                          then (case os_path_getsize (files (snd (relocation st p))) p of
                                  Some n \<Rightarrow> n | None \<Rightarrow> 0)
                          else 0),
             tags = get_file_tags p\<rparr>]
      else [])"
proof -
  obtain F where F: "snd (relocation st p) = st\<lparr>files := F\<rparr>"
    unfolding relocation_def using move_file_frame by blast
  show ?thesis
  proof (cases "relocates st p")
    case True
    show ?thesis
      unfolding process_file_relocated [OF True]
      using True by (simp add: F log_file_movement_def Let_def split: db_outcome.splits)
  next
    case False
    show ?thesis
      unfolding process_file_not_relocated [OF False]
      using False by (simp add: F)
  qed
qed

lemma process_file_files:
  assumes "relocates st p"
  shows "files (process_file st p k) = files (snd (relocation st p))"
proof -
  obtain F where F: "snd (relocation st p) = st\<lparr>files := F\<rparr>"
    unfolding relocation_def using move_file_frame by blast
  show ?thesis
    unfolding process_file_relocated [OF assms]
    by (simp add: F log_file_movement_def Let_def split: db_outcome.splits)
qed

lemma relocation_source_gone:
  "relocates st p \<Longrightarrow> \<not> os_path_exists (files (snd (relocation st p))) p"
  unfolding relocates_def relocation_def by (simp add: move_file_source_gone)

lemma relocates_size:
  assumes "relocates st p"
  shows "\<exists>n. os_path_getsize (files st) p = Some n"
  using assms
  by (auto simp: relocates_def should_process_file_def Let_def split: if_splits option.splits)


subsection \<open>The example world\<close>


lemma example_fields:
  "ignore_patterns (example_core dbo) = default_ignore_patterns"
  "max_file_size_mb (example_core dbo) = 1000"
  "files (example_core dbo) = example_files"
  "db_connect (example_core dbo) = dbo"
  "audit_calls (example_core dbo) = []"
  "process_calls (example_core dbo) = []"
  "watched_folders (example_core dbo) = [''missing'', ''dl'']"
  "is_running (example_core dbo) = False"
  by (simp_all add: example_core_def init_core_def)

lemma example_should_process:
  "should_process_file (example_core dbo) ''dl/invoice_2023.pdf''"
proof -
  have a: "\<not> should_ignore_file default_ignore_patterns ''dl/invoice_2023.pdf''"
    by code_simp
  have b: "os_path_getsize example_files ''dl/invoice_2023.pdf'' = Some 10"
    by code_simp
  show ?thesis
    by (simp add: should_process_file_def example_fields a b)
qed

lemma example_moves:
  "fst (relocation (example_core dbo) ''dl/invoice_2023.pdf'') =
     (True, ''Organized_Files/Finance_Files/invoice_2023.pdf'', Moved_to ''invoice_2023.pdf'')"
  by (cases dbo) (simp_all only:, code_simp+)

lemma example_relocates: "relocates (example_core dbo) ''dl/invoice_2023.pdf''"
  by (simp add: relocates_def example_should_process example_moves)

lemma example_moved_files:
  "files (snd (relocation (example_core dbo) ''dl/invoice_2023.pdf''))
     (parse_path ''Organized_Files/Finance_Files/invoice_2023.pdf'') = Some (File 10) \<and>
   files (snd (relocation (example_core dbo) ''dl/invoice_2023.pdf''))
     (parse_path ''dl/invoice_2023.pdf'') = None"
  by (cases dbo) (simp_all only:, code_simp+)

lemma example_absent: "\<not> relocates (example_core dbo) ''dl/absent.txt''"
proof -
  have "os_path_getsize example_files ''dl/absent.txt'' = None"
    by code_simp
  then show ?thesis
    by (simp add: relocates_def should_process_file_def example_fields)
qed


subsection \<open>One record per relocation\<close>

text \<open>
  C7 (as amended). For a relocation that succeeds, the audit collaborator's record
  operation is called exactly once when the database connection is established, with the
  original name, the new path and the tags, and not at all when \<^verbatim>\<open>connect\<close> returns
  False or raises. It is never called when the file is filtered out or the move fails.
  Whatever the audit step does, the file system is the one the move left (nothing is
  rolled back) and \<^verbatim>\<open>process_file\<close> returns normally.
\<close>

theorem audit_record_when_connected:
  "(relocates st p \<and> db_connect st = Connects \<longrightarrow>
      (\<exists>r. audit_calls (process_file st p k) = audit_calls st @ [r] \<and>
           original_name r = basename p \<and>
           new_path r = fst (snd (fst (relocation st p))) \<and>
           tags r = get_file_tags p)) \<and>
   (relocates st p \<and> db_connect st \<noteq> Connects \<longrightarrow>
      audit_calls (process_file st p k) = audit_calls st) \<and>
   (\<not> relocates st p \<longrightarrow> audit_calls (process_file st p k) = audit_calls st) \<and>
   (relocates st p \<longrightarrow> files (process_file st p k) = files (snd (relocation st p))) \<and>
   process_calls (process_file st p k) = process_calls st @ [(p, k)]"
  by (simp add: process_file_audit process_file_files)

theorem audit_record_when_connected_witness:
  "relocates (example_core Connects) ''dl/invoice_2023.pdf'' \<and>
   db_connect (example_core Connects) = Connects \<and>
   (\<exists>r. audit_calls (process_file (example_core Connects) ''dl/invoice_2023.pdf'' ''created'')
          = audit_calls (example_core Connects) @ [r] \<and>
        original_name r = basename ''dl/invoice_2023.pdf'' \<and>
        new_path r = ''Organized_Files/Finance_Files/invoice_2023.pdf'' \<and>
        tags r = get_file_tags ''dl/invoice_2023.pdf'') \<and>
   relocates (example_core Raises) ''dl/invoice_2023.pdf'' \<and>
   db_connect (example_core Raises) \<noteq> Connects \<and>
   audit_calls (process_file (example_core Raises) ''dl/invoice_2023.pdf'' ''created'')
     = audit_calls (example_core Raises) \<and>
   files (process_file (example_core Raises) ''dl/invoice_2023.pdf'' ''created'')
     = files (snd (relocation (example_core Raises) ''dl/invoice_2023.pdf'')) \<and>
   \<not> relocates (example_core Connects) ''dl/absent.txt'' \<and>
   audit_calls (process_file (example_core Connects) ''dl/absent.txt'' ''created'')
     = audit_calls (example_core Connects)"
proof -
  have h1: "relocates (example_core Connects) ''dl/invoice_2023.pdf'' \<and>
            db_connect (example_core Connects) = Connects"
    by (simp add: example_relocates example_fields)
  have h2: "relocates (example_core Raises) ''dl/invoice_2023.pdf'' \<and>
            db_connect (example_core Raises) \<noteq> Connects"
    by (simp add: example_relocates example_fields)
  have h3: "\<not> relocates (example_core Connects) ''dl/absent.txt''"
    by (rule example_absent)
  have d: "fst (snd (fst (relocation (example_core Connects) ''dl/invoice_2023.pdf'')))
             = ''Organized_Files/Finance_Files/invoice_2023.pdf''"
    by (simp add: example_moves)
  from h1 h2 h3
    audit_record_when_connected [of "example_core Connects" "''dl/invoice_2023.pdf''" "''created''"]
    audit_record_when_connected [of "example_core Raises" "''dl/invoice_2023.pdf''" "''created''"]
    audit_record_when_connected [of "example_core Connects" "''dl/absent.txt''" "''created''"]
  show ?thesis
    unfolding d by blast
qed


text \<open>With a database that refuses the connection the file is moved and no record is made.\<close>

theorem audit_skipped_counterexample:
  "relocates (example_core Refuses) ''dl/invoice_2023.pdf'' \<and>
   files (process_file (example_core Refuses) ''dl/invoice_2023.pdf'' ''created'')
     (parse_path ''Organized_Files/Finance_Files/invoice_2023.pdf'') = Some (File 10) \<and>
   files (process_file (example_core Refuses) ''dl/invoice_2023.pdf'' ''created'')
     (parse_path ''dl/invoice_2023.pdf'') = None \<and>
   audit_calls (process_file (example_core Refuses) ''dl/invoice_2023.pdf'' ''created'') = []"
  by (simp add: example_relocates process_file_files example_moved_files process_file_audit
      example_fields)


subsection \<open>The recorded size\<close>

text \<open>
  C10. For a successful relocation that is recorded, the size handed to the audit record
  is read from the source path in the file system as it is after the move; the source
  path no longer exists there, so the recorded size is 0, whatever size the file had
  before the move.
\<close>

theorem audit_size_zero:
  "relocates st p \<and> db_connect st = Connects \<longrightarrow>
     (\<exists>r n. audit_calls (process_file st p k) = audit_calls st @ [r] \<and>
        file_size r =
          (if os_path_exists (files (process_file st p k)) p
           then (case os_path_getsize (files (process_file st p k)) p of
                   Some n \<Rightarrow> n | None \<Rightarrow> 0)
           else 0) \<and>
        \<not> os_path_exists (files (process_file st p k)) p \<and>
        file_size r = 0 \<and>
        os_path_getsize (files st) p = Some n)"
proof
  assume a: "relocates st p \<and> db_connect st = Connects"
  then have r: "relocates st p" by simp
  from relocates_size [OF r] obtain n where n: "os_path_getsize (files st) p = Some n" ..
  show "\<exists>r n. audit_calls (process_file st p k) = audit_calls st @ [r] \<and>
        file_size r =
          (if os_path_exists (files (process_file st p k)) p
           then (case os_path_getsize (files (process_file st p k)) p of
                   Some n \<Rightarrow> n | None \<Rightarrow> 0)
           else 0) \<and>
        \<not> os_path_exists (files (process_file st p k)) p \<and>
        file_size r = 0 \<and>
        os_path_getsize (files st) p = Some n"
    using a n relocation_source_gone [OF r]
    by (simp add: process_file_audit process_file_files)
qed

theorem audit_size_zero_witness:
  "relocates (example_core Connects) ''dl/invoice_2023.pdf'' \<and>
   db_connect (example_core Connects) = Connects \<and>
   os_path_getsize (files (example_core Connects)) ''dl/invoice_2023.pdf'' = Some 10 \<and>
   map file_size
     (audit_calls (process_file (example_core Connects) ''dl/invoice_2023.pdf'' ''created''))
     = [0]"
proof -
  have h: "relocates (example_core Connects) ''dl/invoice_2023.pdf'' \<and>
           db_connect (example_core Connects) = Connects"
    by (simp add: example_relocates example_fields)
  have sz: "os_path_getsize example_files ''dl/invoice_2023.pdf'' = Some 10"
    by code_simp
  from h audit_size_zero [of "example_core Connects" "''dl/invoice_2023.pdf''" "''created''"]
  obtain r where
    "audit_calls (process_file (example_core Connects) ''dl/invoice_2023.pdf'' ''created'')
       = audit_calls (example_core Connects) @ [r]" "file_size r = 0"
    by blast
  then show ?thesis
    using h sz by (simp add: example_fields)
qed



section \<open>Starting the watch session\<close>


lemma add_watches_ok:
  assumes "\<not> list_ex (\<lambda>f. os_path_exists (files st) f \<and> schedule_raises st f) folders"
  shows "add_watches folders st =
           Inr (st\<lparr>watched_paths :=
                      fold (\<lambda>f. AList.update f True)
                        (filter (os_path_exists (files st)) folders) (watched_paths st)\<rparr>)"
  using assms by (induction folders arbitrary: st) simp_all

lemma keys_fold_update:
  "fst ` set (fold (\<lambda>f. AList.update f True) xs al) = fst ` set al \<union> set xs"
  by (induction xs arbitrary: al) (auto simp: dom_update)

text \<open>
  C2 (as amended). \<^verbatim>\<open>start_watching\<close> returns True whenever the session is not already
  running, at least one configured root exists and the notification source raises no
  error; the roots that exist are then registered and the others are skipped. Under the
  same conditions it returns False only if no root is registered. When the session is
  already running it returns False and changes nothing, whatever roots exist.
\<close>

theorem start_watching_amended:
  "(\<not> is_running st \<and>
    \<not> list_ex (\<lambda>f. os_path_exists (files st) f \<and> schedule_raises st f) (watched_folders st) \<and>
    \<not> start_raises st \<longrightarrow>
      (list_ex (os_path_exists (files st)) (watched_folders st) \<longrightarrow>
         fst (start_watching st) \<and> is_running (snd (start_watching st))) \<and>
      (\<not> fst (start_watching st) \<longrightarrow> watched_paths (snd (start_watching st)) = []) \<and>
      fst ` set (watched_paths (snd (start_watching st))) =
        fst ` set (watched_paths st) \<union>
        set (filter (os_path_exists (files st)) (watched_folders st))) \<and>
   (is_running st \<longrightarrow> \<not> fst (start_watching st) \<and> snd (start_watching st) = st)"
proof -
  have run: "\<not> fst (start_watching st) \<and> snd (start_watching st) = st" if "is_running st"
    using that by (simp add: start_watching_def)
  have ok: "(list_ex (os_path_exists (files st)) (watched_folders st) \<longrightarrow>
         fst (start_watching st) \<and> is_running (snd (start_watching st))) \<and>
      (\<not> fst (start_watching st) \<longrightarrow> watched_paths (snd (start_watching st)) = []) \<and>
      fst ` set (watched_paths (snd (start_watching st))) =
        fst ` set (watched_paths st) \<union>
        set (filter (os_path_exists (files st)) (watched_folders st))"
    if nr: "\<not> is_running st"
      and ns: "\<not> list_ex (\<lambda>f. os_path_exists (files st) f \<and> schedule_raises st f)
                 (watched_folders st)"
      and nst: "\<not> start_raises st"
  proof -
    define wp where "wp = fold (\<lambda>f. AList.update f True)
                        (filter (os_path_exists (files st)) (watched_folders st))
                        (watched_paths st)"
    have aw: "add_watches (watched_folders st) st = Inr (st\<lparr>watched_paths := wp\<rparr>)"
      unfolding wp_def by (rule add_watches_ok [OF ns])
    have keys: "fst ` set wp = fst ` set (watched_paths st) \<union>
                  set (filter (os_path_exists (files st)) (watched_folders st))"
      unfolding wp_def by (rule keys_fold_update)
    have ne: "wp \<noteq> []" if "list_ex (os_path_exists (files st)) (watched_folders st)"
    proof
      assume "wp = []"
      with keys have "set (filter (os_path_exists (files st)) (watched_folders st)) = {}"
        by simp
      with that show False by (auto simp: list_ex_iff filter_empty_conv)
    qed
    show ?thesis
      using nr nst keys ne by (auto simp: start_watching_def aw)
  qed
  from run ok show ?thesis by blast
qed

theorem start_watching_amended_witness:
  "\<not> is_running (example_core Connects) \<and>
   \<not> list_ex (\<lambda>f. os_path_exists (files (example_core Connects)) f \<and>
                   schedule_raises (example_core Connects) f)
        (watched_folders (example_core Connects)) \<and>
   \<not> start_raises (example_core Connects) \<and>
   list_ex (os_path_exists (files (example_core Connects)))
     (watched_folders (example_core Connects)) \<and>
   fst (start_watching (example_core Connects)) \<and>
   is_running (snd (start_watching (example_core Connects))) \<and>
   \<not> fst (start_watching (snd (start_watching (example_core Connects))))"
proof -
  have h: "\<not> is_running (example_core Connects) \<and>
     \<not> list_ex (\<lambda>f. os_path_exists (files (example_core Connects)) f \<and>
                   schedule_raises (example_core Connects) f)
        (watched_folders (example_core Connects)) \<and>
     \<not> start_raises (example_core Connects)"
    by code_simp
  have e: "list_ex (os_path_exists (files (example_core Connects)))
             (watched_folders (example_core Connects))"
    by code_simp
  from h e start_watching_amended [of "example_core Connects"]
  have a: "fst (start_watching (example_core Connects)) \<and>
           is_running (snd (start_watching (example_core Connects)))"
    by blast
  with start_watching_amended [of "snd (start_watching (example_core Connects))"]
  have "\<not> fst (start_watching (snd (start_watching (example_core Connects))))"
    by blast
  with h e a show ?thesis by blast
qed

theorem start_watching_running_counterexample:
  "os_path_exists (files (snd (start_watching (example_core Connects)))) ''dl'' \<and>
   ''dl'' \<in> set (watched_folders (snd (start_watching (example_core Connects)))) \<and>
   \<not> fst (start_watching (snd (start_watching (example_core Connects))))"
  by code_simp



section \<open>Timers\<close>


lemma run_timer_fields:
  assumes "h < length (timers st)"
  shows "timers (run_timer h st) = (timers st)[h := fire (clock st) (timers st ! h)]"
    and "process_calls (run_timer h st) =
           process_calls st @ map call_of (filter (due (clock st)) [timers st ! h])"
    and "clock (run_timer h st) = clock st"
    and "pending_files (run_timer h st) = pending_files st"
    and "delay_seconds (run_timer h st) = delay_seconds st"
    and "is_running (run_timer h st) = is_running st"
  using assms
  by (auto simp: run_timer_def Let_def fire_def due_def call_of_def cancel_def not_less)

lemma fold_run_timer:
  "n \<le> length (timers st) \<Longrightarrow>
     timers (fold run_timer [0..<n] st) =
       map (fire (clock st)) (take n (timers st)) @ drop n (timers st) \<and>
     process_calls (fold run_timer [0..<n] st) =
       process_calls st @ map call_of (filter (due (clock st)) (take n (timers st))) \<and>
     clock (fold run_timer [0..<n] st) = clock st \<and>
     pending_files (fold run_timer [0..<n] st) = pending_files st \<and>
     delay_seconds (fold run_timer [0..<n] st) = delay_seconds st \<and>
     is_running (fold run_timer [0..<n] st) = is_running st"
proof (induction n)
  case 0
  show ?case by simp
next
  case (Suc n)
  define s where "s = fold run_timer [0..<n] st"
  define ts where "ts = timers st"
  have n: "n < length ts" using Suc.prems by (simp add: ts_def)
  from Suc have IH:
    "timers s = map (fire (clock st)) (take n ts) @ drop n ts"
    "process_calls s = process_calls st @ map call_of (filter (due (clock st)) (take n ts))"
    "clock s = clock st" "pending_files s = pending_files st"
    "delay_seconds s = delay_seconds st" "is_running s = is_running st"
    by (simp_all add: s_def ts_def)
  have len: "n < length (timers s)" using n by (simp add: IH)
  have nth: "timers s ! n = ts ! n"
    using n by (simp add: IH nth_append)
  have step: "fold run_timer [0..<Suc n] st = run_timer n s"
    by (simp add: s_def)
  have upd: "(map (fire (clock st)) (take n ts) @ drop n ts)[n := fire (clock st) (ts ! n)] =
             map (fire (clock st)) (take (Suc n) ts) @ drop (Suc n) ts"
    using n
    by (simp add: list_update_append take_Suc_conv_app_nth Cons_nth_drop_Suc [symmetric])
  note rt = run_timer_fields [OF len, unfolded nth IH(3)]
  have c1: "timers (run_timer n s) =
              map (fire (clock st)) (take (Suc n) ts) @ drop (Suc n) ts"
    by (simp only: rt(1) IH(1) upd)
  have c2: "process_calls (run_timer n s) =
              process_calls st @ map call_of (filter (due (clock st)) (take (Suc n) ts))"
    by (simp add: rt(2) IH(2) take_Suc_conv_app_nth [OF n])
  have c3: "clock (run_timer n s) = clock st" "pending_files (run_timer n s) = pending_files st"
    "delay_seconds (run_timer n s) = delay_seconds st"
    "is_running (run_timer n s) = is_running st"
    by (simp_all only: rt IH)
  show ?case
    unfolding step ts_def [symmetric] using c1 c2 c3 by blast
qed

lemma advance_fields:
  "timers (advance t st) = map (fire (max (clock st) t)) (timers st)"
  "process_calls (advance t st) =
     process_calls st @ map call_of (filter (due (max (clock st) t)) (timers st))"
  "clock (advance t st) = max (clock st) t"
  "pending_files (advance t st) = pending_files st"
  "delay_seconds (advance t st) = delay_seconds st"
  "is_running (advance t st) = is_running st"
  using fold_run_timer [of "length (timers st)" "st\<lparr>clock := max (clock st) t\<rparr>"]
  by (simp_all add: advance_def Let_def)

lemma calls_filter:
  "filter (\<lambda>c. fst c = P) (map call_of (filter (due c) ts)) =
   map call_of (filter (\<lambda>tm. t_deadline tm \<le> c)
                  (filter (\<lambda>tm. t_path tm = P \<and> \<not> t_finished tm) ts))"
  by (induction ts) (auto simp: due_def call_of_def)

lemma live_filter:
  "filter (\<lambda>tm. t_path tm = P \<and> \<not> t_finished tm) (map (fire c) ts) =
   filter (\<lambda>tm. \<not> t_deadline tm \<le> c)
     (filter (\<lambda>tm. t_path tm = P \<and> \<not> t_finished tm) ts)"
  by (induction ts) (auto simp: fire_def due_def)

lemma advance_calls_for:
  "calls_for P (advance t st) =
     calls_for P st @
     map call_of (filter (\<lambda>tm. t_deadline tm \<le> max (clock st) t) (live_for P st))"
  by (simp add: calls_for_def live_for_def advance_fields calls_filter)

lemma advance_live_for:
  "live_for P (advance t st) =
     filter (\<lambda>tm. \<not> t_deadline tm \<le> max (clock st) t) (live_for P st)"
  by (simp add: live_for_def advance_fields live_filter)

lemma timers_ok_iff:
  "timers_ok st \<longleftrightarrow>
     (\<forall>h < length (timers st).
        t_finished (timers st ! h) \<or>
        map_of (pending_files st) (t_path (timers st ! h)) = Some h) \<and>
     (\<forall>(p, h) \<in> set (pending_files st). h < length (timers st) \<and> t_path (timers st ! h) = p)"
  by (auto simp: timers_ok_def list_all_iff)

lemma fire_simps [simp]:
  "t_path (fire c tm) = t_path tm"
  "t_finished tm \<Longrightarrow> t_finished (fire c tm)"
  by (simp_all add: fire_def)

lemma timers_ok_advance: "timers_ok st \<Longrightarrow> timers_ok (advance t st)"
  unfolding timers_ok_iff by (auto simp: advance_fields)



lemma cancel_simps [simp]:
  "length (cancel h ts) = length ts"
  "i < length ts \<Longrightarrow> t_path (cancel h ts ! i) = t_path (ts ! i)"
  "i < length ts \<Longrightarrow> t_finished (cancel h ts ! i) = (t_finished (ts ! i) \<or> i = h)"
  by (auto simp: cancel_def nth_list_update)

lemma fold_cancel:
  "length (fold cancel hs ts) = length ts \<and>
   (\<forall>i < length ts.
      t_path (fold cancel hs ts ! i) = t_path (ts ! i) \<and>
      t_finished (fold cancel hs ts ! i) = (t_finished (ts ! i) \<or> i \<in> set hs))"
  by (induction hs arbitrary: ts) auto

lemma schedule_fields:
  "process_calls (schedule_file_processing st P k) = process_calls st"
  "clock (schedule_file_processing st P k) = clock st"
  "delay_seconds (schedule_file_processing st P k) = delay_seconds st"
  "files (schedule_file_processing st P k) = files st"
  "pending_files (schedule_file_processing st P k) =
     AList.update P (length (timers st)) (pending_files st)"
  by (simp_all add: schedule_file_processing_def Let_def split: option.splits)

lemma schedule_timers:
  "\<exists>ts. timers (schedule_file_processing st P k) =
          ts @ [\<lparr>t_path = P, t_kind = k, t_deadline = clock st + delay_seconds st,
                  t_finished = False\<rparr>] \<and>
        length ts = length (timers st) \<and>
        (\<forall>i < length ts.
           t_path (ts ! i) = t_path (timers st ! i) \<and>
           t_finished (ts ! i) =
             (t_finished (timers st ! i) \<or> map_of (pending_files st) P = Some i))"
  by (auto simp: schedule_file_processing_def Let_def split: option.splits)

lemma set_update_subset: "set (AList.update k v al) \<subseteq> insert (k, v) (set al)"
  by (induction al) auto

lemma schedule_live_for:
  assumes ok: "timers_ok st"
  shows "live_for P (schedule_file_processing st P k) =
           [\<lparr>t_path = P, t_kind = k, t_deadline = clock st + delay_seconds st,
              t_finished = False\<rparr>]"
proof -
  from schedule_timers [of st P k] obtain ts where
    ts: "timers (schedule_file_processing st P k) =
          ts @ [\<lparr>t_path = P, t_kind = k, t_deadline = clock st + delay_seconds st,
                  t_finished = False\<rparr>]"
    and len: "length ts = length (timers st)"
    and el: "\<forall>i < length ts.
           t_path (ts ! i) = t_path (timers st ! i) \<and>
           t_finished (ts ! i) =
             (t_finished (timers st ! i) \<or> map_of (pending_files st) P = Some i)"
    by blast
  have "\<not> (t_path x = P \<and> \<not> t_finished x)" if "x \<in> set ts" for x
  proof -
    from that obtain i where i: "i < length ts" "x = ts ! i"
      by (auto simp: in_set_conv_nth)
    from ok i len have "t_finished (timers st ! i) \<or>
        map_of (pending_files st) (t_path (timers st ! i)) = Some i"
      by (simp add: timers_ok_iff)
    with el i show ?thesis by auto
  qed
  then have "filter (\<lambda>tm. t_path tm = P \<and> \<not> t_finished tm) ts = []"
    by (simp add: filter_empty_conv)
  then show ?thesis
    by (simp add: live_for_def ts)
qed

lemma timers_ok_schedule:
  assumes ok: "timers_ok st"
  shows "timers_ok (schedule_file_processing st P k)"
proof -
  let ?st' = "schedule_file_processing st P k"
  from schedule_timers [of st P k] obtain ts where
    ts: "timers ?st' =
          ts @ [\<lparr>t_path = P, t_kind = k, t_deadline = clock st + delay_seconds st,
                  t_finished = False\<rparr>]"
    and len: "length ts = length (timers st)"
    and el: "\<forall>i < length ts.
           t_path (ts ! i) = t_path (timers st ! i) \<and>
           t_finished (ts ! i) =
             (t_finished (timers st ! i) \<or> map_of (pending_files st) P = Some i)"
    by blast
  have pf: "pending_files ?st' = AList.update P (length ts) (pending_files st)"
    by (simp add: schedule_fields len)
  have mo: "map_of (pending_files ?st') q =
              (if q = P then Some (length ts) else map_of (pending_files st) q)" for q
    by (simp add: pf update_conv')
  have a: "t_finished (timers ?st' ! h) \<or>
           map_of (pending_files ?st') (t_path (timers ?st' ! h)) = Some h"
    if h: "h < length (timers ?st')" for h
  proof (cases "h < length ts")
    case True
    from ok True len have "t_finished (timers st ! h) \<or>
        map_of (pending_files st) (t_path (timers st ! h)) = Some h"
      by (simp add: timers_ok_iff)
    with el True show ?thesis
      by (auto simp: ts nth_append mo)
  next
    case False
    with h have "h = length ts" by (simp add: ts)
    then show ?thesis by (simp add: ts mo)
  qed
  have b: "h < length (timers ?st') \<and> t_path (timers ?st' ! h) = p"
    if "(p, h) \<in> set (pending_files ?st')" for p h
  proof -
    from that set_update_subset [of P "length ts" "pending_files st"]
    consider "p = P" "h = length ts" | "(p, h) \<in> set (pending_files st)"
      unfolding pf by auto
    then show ?thesis
    proof cases
      case 1
      then show ?thesis by (simp add: ts)
    next
      case 2
      with ok have "h < length (timers st) \<and> t_path (timers st ! h) = p"
        by (auto simp: timers_ok_iff)
      with el len show ?thesis by (simp add: ts nth_append)
    qed
  qed
  from a b show ?thesis
    unfolding timers_ok_iff by blast
qed


subsection \<open>Debounce\<close>


lemma notify_fields:
  "clock (notify P st ev) = max (clock st) (fst ev)"
  "delay_seconds (notify P st ev) = delay_seconds st"
  "calls_for P' (notify P st ev) = calls_for P' (advance (fst ev) st)"
  by (simp_all add: notify_def schedule_fields advance_fields calls_for_def)

lemma timers_ok_notify: "timers_ok st \<Longrightarrow> timers_ok (notify P st ev)"
  by (simp add: notify_def timers_ok_schedule timers_ok_advance)

lemma notify_first:
  assumes "timers_ok st" "clock st \<le> t"
  shows "settled P (notify P st (t, k)) t k"
  using assms
  by (simp add: settled_def timers_ok_notify notify_fields)
     (simp add: notify_def schedule_live_for timers_ok_advance advance_fields)

lemma notify_next:
  assumes s: "settled P st t k" and le: "t \<le> t2" and lt: "t2 < t + delay_seconds st"
  shows "settled P (notify P st (t2, k2)) t2 k2 \<and>
         calls_for P (notify P st (t2, k2)) = calls_for P st"
proof -
  from s have ok: "timers_ok st" and c: "clock st = t"
    and l: "live_for P st = [\<lparr>t_path = P, t_kind = k, t_deadline = t + delay_seconds st,
                               t_finished = False\<rparr>]"
    by (simp_all add: settled_def)
  have "calls_for P (advance t2 st) = calls_for P st"
    using le lt by (simp add: advance_calls_for l c)
  moreover have "settled P (notify P st (t2, k2)) t2 k2"
    using notify_first [OF ok, of t2 P k2] le c by simp
  ultimately show ?thesis
    by (simp add: notify_fields)
qed

lemma settled_fires:
  assumes s: "settled P st t k" and T: "t + delay_seconds st \<le> T"
  shows "calls_for P (advance T st) = calls_for P st @ [(P, k)]"
proof -
  from s have c: "clock st = t"
    and l: "live_for P st = [\<lparr>t_path = P, t_kind = k, t_deadline = t + delay_seconds st,
                               t_finished = False\<rparr>]"
    by (simp_all add: settled_def)
  show ?thesis
    using T by (simp add: advance_calls_for l c call_of_def)
qed

lemma burst_run:
  "settled P st t k \<Longrightarrow> burst (delay_seconds st) ((t, k) # evs) \<Longrightarrow>
   settled P (foldl (notify P) st evs) (fst (last ((t, k) # evs))) (snd (last ((t, k) # evs))) \<and>
   calls_for P (foldl (notify P) st evs) = calls_for P st \<and>
   delay_seconds (foldl (notify P) st evs) = delay_seconds st"
proof (induction evs arbitrary: st t k)
  case Nil
  then show ?case by simp
next
  case (Cons ev evs)
  obtain t2 k2 where ev: "ev = (t2, k2)" by (cases ev)
  from Cons.prems(2) have le: "t \<le> t2" and lt: "t2 < t + delay_seconds st"
    and rest: "burst (delay_seconds st) ((t2, k2) # evs)"
    by (simp_all add: ev)
  from notify_next [OF Cons.prems(1) le lt, of k2]
  have s2: "settled P (notify P st (t2, k2)) t2 k2"
    and c2: "calls_for P (notify P st (t2, k2)) = calls_for P st"
    by simp_all
  have d2: "delay_seconds (notify P st (t2, k2)) = delay_seconds st"
    by (simp add: notify_fields)
  from Cons.IH [OF s2] rest d2 c2 show ?case
    by (simp add: ev)
qed

text \<open>
  C4. Let one or more notifications for a path arrive, the first no earlier than the
  current time, each later one less than the quiet period after the one before. Then
  from the first notification until any time at which the last timer's wait has ended,
  \<^verbatim>\<open>process_file\<close> is called for the path exactly once, with the kind of the last
  notification.
\<close>

theorem debounce_once_last_kind:
  assumes "timers_ok st" "clock st \<le> fst ev" "burst (delay_seconds st) (ev # evs)"
    "fst (last (ev # evs)) + delay_seconds st \<le> T"
  shows "calls_for P (advance T (foldl (notify P) st (ev # evs))) =
         calls_for P (advance (fst ev) st) @ [(P, snd (last (ev # evs)))]"
proof -
  obtain t k where ev: "ev = (t, k)" by (cases ev)
  let ?s1 = "notify P st (t, k)"
  have s1: "settled P ?s1 t k"
    using assms(1,2) by (simp add: ev notify_first)
  have d1: "delay_seconds ?s1 = delay_seconds st"
    by (simp add: notify_fields)
  have c1: "calls_for P ?s1 = calls_for P (advance t st)"
    by (simp add: notify_fields)
  from burst_run [OF s1, of evs] assms(3)
  have s: "settled P (foldl (notify P) ?s1 evs) (fst (last ((t, k) # evs)))
             (snd (last ((t, k) # evs)))"
    and c: "calls_for P (foldl (notify P) ?s1 evs) = calls_for P ?s1"
    and d: "delay_seconds (foldl (notify P) ?s1 evs) = delay_seconds st"
    by (simp_all add: d1 ev)
  from settled_fires [OF s, of T] assms(4)
  show ?thesis
    by (simp add: ev c c1 d)
qed

subsection \<open>Stopping\<close>






lemma stop_cancels_all:
  assumes ok: "timers_ok st"
  shows "list_all t_finished (fold cancel (map snd (pending_files st)) (timers st))"
proof -
  let ?ts = "fold cancel (map snd (pending_files st)) (timers st)"
  have fc: "length ?ts = length (timers st)"
    "\<And>i. i < length (timers st) \<Longrightarrow>
       t_finished (?ts ! i) = (t_finished (timers st ! i) \<or> i \<in> set (map snd (pending_files st)))"
    using fold_cancel [of "map snd (pending_files st)" "timers st"] by auto
  have "t_finished (?ts ! i)" if i: "i < length (timers st)" for i
  proof -
    from ok i consider "t_finished (timers st ! i)"
      | "map_of (pending_files st) (t_path (timers st ! i)) = Some i"
      by (auto simp: timers_ok_iff)
    then show ?thesis
    proof cases
      case 1
      with fc(2) [OF i] show ?thesis by simp
    next
      case 2
      then have "(t_path (timers st ! i), i) \<in> set (pending_files st)"
        by (rule map_of_SomeD)
      then have "i \<in> set (map snd (pending_files st))" by force
      with fc(2) [OF i] show ?thesis by simp
    qed
  qed
  then show ?thesis
    by (simp add: list_all_length fc(1))
qed

lemma timers_ok_init: "timers_ok (init_core base folders fsys now dbo)"
  by (simp add: timers_ok_def init_core_def)

lemma timers_ok_stop: "timers_ok st \<Longrightarrow> timers_ok (stop_watching st)"
  using stop_cancels_all [of st]
  by (auto simp: stop_watching_def timers_ok_def list_all_length)






subsection \<open>The example session\<close>


lemma example_timer_fields:
  "timers (example_core dbo) = []"
  "pending_files (example_core dbo) = []"
  "clock (example_core dbo) = 0"
  "delay_seconds (example_core dbo) = 2"
  by (simp_all add: example_core_def init_core_def)

lemma example_timers_ok: "timers_ok (example_core dbo)"
  unfolding example_core_def by (rule timers_ok_init)



theorem debounce_once_last_kind_witness:
  "timers_ok (example_core Connects) \<and>
   clock (example_core Connects) \<le> fst (0::nat, ''created'') \<and>
   burst (delay_seconds (example_core Connects)) [(0, ''created''), (1, ''moved'')] \<and>
   fst (last [(0::nat, ''created''), (1, ''moved'')]) + delay_seconds (example_core Connects) \<le> 3 \<and>
   calls_for ''dl/invoice_2023.pdf''
     (advance 3 (foldl (notify ''dl/invoice_2023.pdf'') (example_core Connects)
        [(0, ''created''), (1, ''moved'')]))
     = [(''dl/invoice_2023.pdf'', ''moved'')]"
proof -
  have h1: "timers_ok (example_core Connects)"
    by (rule example_timers_ok)
  have h2: "clock (example_core Connects) \<le> fst (0::nat, ''created'')"
    by (simp add: example_timer_fields)
  have h3: "burst (delay_seconds (example_core Connects)) [(0, ''created''), (1, ''moved'')]"
    by (simp add: example_timer_fields)
  have h4: "fst (last [(0::nat, ''created''), (1, ''moved'')]) +
            delay_seconds (example_core Connects) \<le> 3"
    by (simp add: example_timer_fields)
  have before: "calls_for ''dl/invoice_2023.pdf''
                  (advance (fst (0::nat, ''created'')) (example_core Connects)) = []"
    unfolding advance_calls_for
    by (simp add: calls_for_def live_for_def example_timer_fields example_fields)
  from debounce_once_last_kind [OF h1 h2 h3 h4, of "''dl/invoice_2023.pdf''"] before
  have "calls_for ''dl/invoice_2023.pdf''
     (advance 3 (foldl (notify ''dl/invoice_2023.pdf'') (example_core Connects)
        [(0, ''created''), (1, ''moved'')]))
     = [(''dl/invoice_2023.pdf'', ''moved'')]"
    by simp
  with h1 h2 h3 h4 show ?thesis by blast
qed




subsection \<open>After a timer has fired\<close>

text \<open>
  C1. When a timer has fired and the file has been processed, the path is still in
  \<open>pending_files\<close>: neither the timer nor \<^verbatim>\<open>process_file\<close> removes it, so the status
  goes on counting it as pending. In the example one notification arrives at time 0 and
  its timer fires at time 2.
\<close>

theorem fired_path_stays_pending:
  "pending_files (process_file st p k) = pending_files st \<and>
   pending_files (advance t st) = pending_files st \<and>
   process_calls (advance 2 (notify ''dl/invoice_2023.pdf'' (example_core Connects)
                               (0, ''created'')))
     = [(''dl/invoice_2023.pdf'', ''created'')] \<and>
   list_all t_finished
     (timers (advance 2 (notify ''dl/invoice_2023.pdf'' (example_core Connects)
                           (0, ''created'')))) \<and>
   map fst (pending_files (advance 2 (notify ''dl/invoice_2023.pdf'' (example_core Connects)
                                        (0, ''created''))))
     = [''dl/invoice_2023.pdf''] \<and>
   s_pending_files (get_status (advance 2 (notify ''dl/invoice_2023.pdf''
                                              (example_core Connects) (0, ''created''))))
     = 1"
proof -
  let ?n = "notify ''dl/invoice_2023.pdf'' (example_core Connects) (0, ''created'')"
  have n: "timers ?n = [\<lparr>t_path = ''dl/invoice_2023.pdf'', t_kind = ''created'',
                          t_deadline = 2, t_finished = False\<rparr>]"
    "pending_files ?n = [(''dl/invoice_2023.pdf'', 0)]"
    "process_calls ?n = []" "clock ?n = 0"
    by code_simp+
  show ?thesis
    by (simp add: advance_fields n get_status_def due_def fire_def call_of_def)
qed


end
